theory Spec2Isabelle
  imports Main "HOL-Library.Word"
begin

section \<open>JavaScript strings and values\<close>

text \<open>
  A JavaScript string is a sequence of 16-bit code units; \<open>length\<close>, \<open>slice\<close>,
  \<open>charCodeAt\<close>, \<open>startsWith\<close> and \<open>trim\<close> all work on code units.  String
  literals of the source are written through \<open>js\<close>.
\<close>

type_synonym jstring = "16 word list"

definition js :: "string \<Rightarrow> jstring" where
  "js s = map of_char s"

text \<open>\<open>s.slice(0, n)\<close> for \<open>n \<ge> 0\<close> and \<open>s.slice(0, -n)\<close>.\<close>

definition slice0 :: "nat \<Rightarrow> jstring \<Rightarrow> jstring" where
  "slice0 n s = take n s"

definition slice0_neg :: "nat \<Rightarrow> jstring \<Rightarrow> jstring" where
  "slice0_neg n s = take (length s - n) s"

text \<open>\<open>s.slice(n)\<close> for \<open>n \<ge> 0\<close>.\<close>

definition slice_from :: "nat \<Rightarrow> jstring \<Rightarrow> jstring" where
  "slice_from n s = drop n s"

definition startsWith :: "jstring \<Rightarrow> jstring \<Rightarrow> bool" where
  "startsWith s p = (take (length p) s = p)"

definition endsWith :: "jstring \<Rightarrow> jstring \<Rightarrow> bool" where
  "endsWith s p = (length p \<le> length s \<and> drop (length s - length p) s = p)"

text \<open>
  The code units that \<open>String.prototype.trim\<close> removes: ECMAScript's WhiteSpace
  (TAB, VT, FF, SP, NBSP, ZWNBSP and the space separators) and LineTerminator
  (LF, CR, LS, PS).
\<close>

definition js_ws :: "16 word \<Rightarrow> bool" where
  "js_ws c = (c = 0x09 \<or> c = 0x0A \<or> c = 0x0B \<or> c = 0x0C \<or> c = 0x0D \<or> c = 0x20
     \<or> c = 0xA0 \<or> c = 0x1680 \<or> (0x2000 \<le> c \<and> c \<le> 0x200A)
     \<or> c = 0x2028 \<or> c = 0x2029 \<or> c = 0x202F \<or> c = 0x205F \<or> c = 0x3000
     \<or> c = 0xFEFF)"

definition trimStart :: "jstring \<Rightarrow> jstring" where
  "trimStart s = dropWhile js_ws s"

definition trimEnd :: "jstring \<Rightarrow> jstring" where
  "trimEnd s = rev (dropWhile js_ws (rev s))"

definition trim :: "jstring \<Rightarrow> jstring" where
  "trim s = trimEnd (trimStart s)"

text \<open>\<open>parts.join(sep)\<close> on an array of strings.\<close>

fun join :: "jstring \<Rightarrow> jstring list \<Rightarrow> jstring" where
  "join sep [] = []"
| "join sep [x] = x"
| "join sep (x # y # ys) = x @ sep @ join sep (y # ys)"

text \<open>
  The values that callers and producers exchange: plain data.  An object is the list of
  its own properties in insertion order; its prototype is \<open>Object.prototype\<close>, from which
  it inherits the standard members.  \<open>JProto\<close> is \<open>Object.prototype\<close> itself and
  \<open>JBuiltin k\<close> is the function that is its member \<open>k\<close>.  Numbers are the integral
  ones; no definition below computes with them.
\<close>

datatype jsval =
    JUndefined
  | JNull
  | JBool bool
  | JNum int
  | JStr jstring
  | JArr "jsval list"
  | JObj "(jstring \<times> jsval) list"
  | JProto
  | JBuiltin jstring

fun typeof :: "jsval \<Rightarrow> jstring" where
  "typeof JUndefined = js ''undefined''"
| "typeof JNull = js ''object''"
| "typeof (JBool b) = js ''boolean''"
| "typeof (JNum n) = js ''number''"
| "typeof (JStr s) = js ''string''"
| "typeof (JArr xs) = js ''object''"
| "typeof (JObj kvs) = js ''object''"
| "typeof JProto = js ''object''"
| "typeof (JBuiltin k) = js ''function''"

fun truthy :: "jsval \<Rightarrow> bool" where
  "truthy JUndefined = False"
| "truthy JNull = False"
| "truthy (JBool b) = b"
| "truthy (JNum n) = (n \<noteq> 0)"
| "truthy (JStr s) = (s \<noteq> [])"
| "truthy (JArr xs) = True"
| "truthy (JObj kvs) = True"
| "truthy JProto = True"
| "truthy (JBuiltin k) = True"

fun isArray :: "jsval \<Rightarrow> bool" where
  "isArray (JArr xs) = True"
| "isArray v = False"

text \<open>
  The properties of \<open>Object.prototype\<close>: eleven functions and the accessor \<open>__proto__\<close>,
  which yields the prototype of the object it is read from.
\<close>

definition prototype_functions :: "jstring list" where
  "prototype_functions =
     [js ''constructor'', js ''__defineGetter__'', js ''__defineSetter__'',
      js ''hasOwnProperty'', js ''__lookupGetter__'', js ''__lookupSetter__'',
      js ''isPrototypeOf'', js ''propertyIsEnumerable'', js ''toString'', js ''valueOf'',
      js ''toLocaleString'']"

definition inherited :: "jstring \<Rightarrow> bool" where
  "inherited k = (k = js ''__proto__'' \<or> k \<in> set prototype_functions)"

text \<open>
  \<open>key in obj\<close> and \<open>obj[key]\<close>, for the values \<open>obj\<close> with \<open>typeof obj = 'object'\<close> that
  are not \<open>null\<close>: own properties first, then the prototype.  The guard applies them to
  no other value.
\<close>

fun has_key :: "jstring \<Rightarrow> jsval \<Rightarrow> bool" where
  "has_key k (JObj kvs) = (map_of kvs k \<noteq> None \<or> inherited k)"
| "has_key k JProto = inherited k"
| "has_key k v = False"

fun get_key :: "jstring \<Rightarrow> jsval \<Rightarrow> jsval" where
  "get_key k (JObj kvs) =
     (case map_of kvs k of
        Some v \<Rightarrow> v
      | None \<Rightarrow>
          if k = js ''__proto__'' then JProto
          else if k \<in> set prototype_functions then JBuiltin k
          else JUndefined)"
| "get_key k JProto =
     (if k = js ''__proto__'' then JNull
      else if k \<in> set prototype_functions then JBuiltin k
      else JUndefined)"
| "get_key k v = JUndefined"

section \<open>utils.ts: ParseError and parseJson\<close>

record ParseError =
  pe_message :: jstring
  pe_rawOutput :: jstring

text \<open>\<open>new ParseError(message, rawOutput)\<close>; the constructor stores both as given.\<close>

definition new_ParseError :: "jstring \<Rightarrow> jstring \<Rightarrow> ParseError" where
  "new_ParseError m r = \<lparr>pe_message = m, pe_rawOutput = r\<rparr>"

text \<open>
  The built-ins that \<open>parseJson\<close> calls are parameters: \<open>String(v)\<close> as \<open>toStr\<close>, and
  \<open>JSON.parse\<close> as \<open>json_parse\<close>, which returns \<open>Inl m\<close> when it throws a
  \<open>SyntaxError\<close> with message \<open>m\<close>.
\<close>

definition fence :: jstring where
  "fence = [0x60, 0x60, 0x60]"

definition BOM :: "16 word" where
  "BOM = 0xFEFF"

definition strip_bom :: "jstring \<Rightarrow> jstring" where
  "strip_bom text = (case text of c # cs \<Rightarrow> if c = BOM then slice_from 1 text else text
                     | [] \<Rightarrow> text)"

definition strip_fences :: "jstring \<Rightarrow> jstring" where
  "strip_fences text =
     (let stripped = trim text in
      if startsWith stripped fence then
        let line0 = takeWhile (\<lambda>c. c \<noteq> 0x0A) stripped;
            body = slice_from (length line0 + 1) stripped;
            body' = (if endsWith (trimEnd body) fence
                     then slice0_neg 3 (trimEnd body) else body)
        in trim body'
      else stripped)"

definition parseJson ::
  "(jsval \<Rightarrow> jstring) \<Rightarrow> (jstring \<Rightarrow> jstring + 'v) \<Rightarrow> jsval \<Rightarrow> ParseError + 'v" where
  "parseJson toStr json_parse input =
     (case input of
        JStr s \<Rightarrow>
          (case json_parse (strip_fences (strip_bom s)) of
             Inr v \<Rightarrow> Inr v
           | Inl message \<Rightarrow> Inl (new_ParseError message s))
      | _ \<Rightarrow>
          Inl (new_ParseError (js ''Expected string, got '' @ typeof input)
                 (slice0 500 (toStr input))))"

section \<open>types.ts: diagnostics, attempt records, violations\<close>

datatype kind = validation | parse

fun kind_name :: "kind \<Rightarrow> jstring" where
  "kind_name validation = js ''validation''"
| "kind_name parse = js ''parse''"

record Diagnostic =
  d_type :: kind
  d_message :: jstring
  d_field :: "jstring option"
  d_expected :: "jstring option"
  d_received :: "jstring option"
  d_suggestion :: "jstring option"
  d_rawOutput :: "jstring option"

definition createDiagnostic :: "Diagnostic \<Rightarrow> Diagnostic" where
  "createDiagnostic data = data\<lparr>d_rawOutput := map_option (slice0 500) (d_rawOutput data)\<rparr>"

record AttemptRecord =
  ar_attempt :: int
  ar_timestamp :: int
  ar_durationMs :: int
  ar_diagnostic :: "Diagnostic option"

datatype contract = InputContract | OutputContract

record ViolationContext =
  vc_nodeName :: jstring
  vc_contractType :: contract
  vc_fieldPath :: jstring
  vc_expected :: jstring
  vc_received :: jstring
  vc_receivedType :: jstring
  vc_suggestion :: jstring

record HandoffViolation =
  hv_message :: jstring
  hv_nodeName :: jstring
  hv_fieldPath :: jstring
  hv_context :: ViolationContext
  hv_totalAttempts :: nat
  hv_history :: "AttemptRecord list"

text \<open>
  The constructor: \<open>history\<close> defaults to the empty array, and
  \<open>totalAttempts = history.length || 1\<close>.
\<close>

definition new_HandoffViolation ::
  "ViolationContext \<Rightarrow> AttemptRecord list option \<Rightarrow> HandoffViolation" where
  "new_HandoffViolation ctx hist =
     (let history = (case hist of Some h \<Rightarrow> h | None \<Rightarrow> []) in
      \<lparr>hv_message = js ''Validation failed at '' @ [0x27] @ vc_nodeName ctx @ [0x27]
                       @ js '': '' @ vc_expected ctx,
       hv_nodeName = vc_nodeName ctx,
       hv_fieldPath = vc_fieldPath ctx,
       hv_context = ctx,
       hv_totalAttempts = (if length history = 0 then 1 else length history),
       hv_history = history\<rparr>)"

section \<open>retry.ts: the per-attempt state and its ambient accessor\<close>

text \<open>
  \<open>rs_feedback\<close> is what calling \<open>feedback()\<close> returns while the state is published.
\<close>

record RetryState =
  rs_attempt :: int
  rs_maxAttempts :: int
  rs_remaining :: int
  rs_isRetry :: bool
  rs_isFinalAttempt :: bool
  rs_lastError :: "Diagnostic option"
  rs_history :: "AttemptRecord list"
  rs_feedback :: "jstring option"

definition getDefaultState :: RetryState where
  "getDefaultState =
     \<lparr>rs_attempt = 1, rs_maxAttempts = 1, rs_remaining = 0, rs_isRetry = False,
      rs_isFinalAttempt = True, rs_lastError = None, rs_history = [],
      rs_feedback = None\<rparr>"

text \<open>
  The content of \<open>retryStorage\<close> as \<open>getStore()\<close> returns it is \<open>None\<close> outside every
  \<open>run\<close> and \<open>Some state\<close> inside one.  The \<open>retry\<close> proxy reads each property from
  the stored state, or from a fresh default state when the store is empty.
\<close>

definition retry :: "RetryState option \<Rightarrow> RetryState" where
  "retry store = (case store of None \<Rightarrow> getDefaultState | Some state \<Rightarrow> state)"

text \<open>
  \<open>retryStorage.run(state, fn)\<close> runs \<open>fn\<close> with the store holding \<open>state\<close>; \<open>fn\<close> is
  given here as a function of the content of the store.
\<close>

definition runWithRetryState :: "RetryState \<Rightarrow> (RetryState option \<Rightarrow> 'a) \<Rightarrow> 'a" where
  "runWithRetryState state fn = fn (Some state)"

definition runWithRetryStateAsync :: "RetryState \<Rightarrow> (RetryState option \<Rightarrow> 'a) \<Rightarrow> 'a" where
  "runWithRetryStateAsync state fn = fn (Some state)"

section \<open>testing.ts: mockRetry\<close>

record MockRetryOptions =
  mo_attempt :: "int option"
  mo_maxAttempts :: "int option"
  mo_lastError :: "Diagnostic option"
  mo_feedbackText :: "jstring option"

definition mockRetry_state :: "MockRetryOptions \<Rightarrow> RetryState" where
  "mockRetry_state options =
     (let attempt = (case mo_attempt options of Some a \<Rightarrow> a | None \<Rightarrow> 2);
          maxAttempts = (case mo_maxAttempts options of Some m \<Rightarrow> m | None \<Rightarrow> 3);
          lastError =
            (case mo_lastError options of
               Some d \<Rightarrow> Some d
             | None \<Rightarrow>
                 (case mo_feedbackText options of
                    Some t \<Rightarrow>
                      if t \<noteq> [] then
                        Some \<lparr>d_type = validation, d_message = t, d_field = None,
                              d_expected = None, d_received = None, d_suggestion = None,
                              d_rawOutput = None\<rparr>
                      else None
                  | None \<Rightarrow> None))
      in \<lparr>rs_attempt = attempt, rs_maxAttempts = maxAttempts,
          rs_remaining = maxAttempts - attempt, rs_isRetry = (attempt > 1),
          rs_isFinalAttempt = (attempt = maxAttempts), rs_lastError = lastError,
          rs_history = [],
          rs_feedback =
            (case lastError of
               Some d \<Rightarrow> Some (js ''Mock feedback for: '' @ d_message d)
             | None \<Rightarrow> None)\<rparr>)"

definition mockRetry :: "MockRetryOptions \<Rightarrow> (RetryState option \<Rightarrow> 'a) \<Rightarrow> 'a" where
  "mockRetry options fn = runWithRetryStateAsync (mockRetry_state options) fn"

section \<open>guard.ts\<close>

subsection \<open>Schemas and suggestions\<close>

text \<open>
  A schema is used through \<open>safeParse\<close> only, which reports a failure in its result
  and does not throw, and of a failure only the first issue is read: a schema is a
  function that returns \<open>None\<close> on success and the first issue otherwise.  Path segments
  and enum values are kept in their string form.
\<close>

record issue =
  iss_path :: "jstring list"
  iss_message :: jstring
  iss_code :: jstring
  iss_expected :: "jstring option"
  iss_values :: "jstring list option"

type_synonym schema = "jsval \<Rightarrow> issue option"

text \<open>\<open>a || b\<close> on strings, and a possibly undefined string inside a template.\<close>

definition or_else :: "jstring \<Rightarrow> jstring \<Rightarrow> jstring" where
  "or_else a b = (if a \<noteq> [] then a else b)"

definition tmpl :: "jstring option \<Rightarrow> jstring" where
  "tmpl x = (case x of Some s \<Rightarrow> s | None \<Rightarrow> js ''undefined'')"

text \<open>The class \<open>\w\<close> of a regular expression: letters, digits and the underscore.\<close>

definition is_word :: "16 word \<Rightarrow> bool" where
  "is_word c = ((0x30 \<le> c \<and> c \<le> 0x39) \<or> (0x41 \<le> c \<and> c \<le> 0x5A) \<or> c = 0x5F
     \<or> (0x61 \<le> c \<and> c \<le> 0x7A))"

text \<open>The first capture group of \<open>message.match(/received (\w+)/)\<close>.\<close>

fun match_received :: "jstring \<Rightarrow> jstring option" where
  "match_received [] = None"
| "match_received (c # cs) =
     (if startsWith (c # cs) (js ''received '')
         \<and> takeWhile is_word (drop 9 (c # cs)) \<noteq> []
      then Some (takeWhile is_word (drop 9 (c # cs)))
      else match_received cs)"

definition quoted :: "jstring \<Rightarrow> jstring" where
  "quoted s = [0x27] @ s @ [0x27]"

definition generateSuggestion :: "issue \<Rightarrow> jstring" where
  "generateSuggestion error =
     (let field = or_else (join (js ''.'') (iss_path error)) (js ''value'') in
      if iss_code error = js ''too_small'' then
        js ''Increase the length/value of '' @ quoted field
      else if iss_code error = js ''too_big'' then
        js ''Decrease the length/value of '' @ quoted field
      else if iss_code error = js ''invalid_type'' then
        (case match_received (iss_message error) of
           Some received \<Rightarrow>
             quoted field @ js '' should be '' @ tmpl (iss_expected error)
               @ js '', got '' @ received
         | None \<Rightarrow> quoted field @ js '' should be '' @ tmpl (iss_expected error))
      else if iss_code error = js ''invalid_value'' then
        quoted field @ js '' must be one of: ''
          @ tmpl (map_option (join (js '', '')) (iss_values error))
      else js ''Fix '' @ quoted field @ js '': '' @ iss_message error)"

subsection \<open>Feedback text\<close>

text \<open>
  A line of the feedback that is pushed only if the field is present and not empty.
\<close>

definition line_if :: "jstring \<Rightarrow> jstring option \<Rightarrow> jstring list" where
  "line_if label x =
     (case x of Some s \<Rightarrow> if s \<noteq> [] then [label @ s] else [] | None \<Rightarrow> [])"

definition formatFeedback :: "Diagnostic option \<Rightarrow> jstring option" where
  "formatFeedback diagnostic =
     (case diagnostic of
        None \<Rightarrow> None
      | Some d \<Rightarrow>
          Some (join [0x0A]
            ([js ''[Retry] Previous attempt failed ('' @ kind_name (d_type d) @ js ''):'',
              js ''  Message: '' @ d_message d]
             @ line_if (js ''  Field: '') (d_field d)
             @ line_if (js ''  Suggestion: '') (d_suggestion d)
             @ (case d_rawOutput d of
                  Some raw \<Rightarrow>
                    if raw \<noteq> [] then [js ''  Raw output: '' @ slice0 200 raw] else []
                | None \<Rightarrow> []))))"

subsection \<open>Arguments\<close>

definition resolveInputData :: "jsval list \<Rightarrow> jstring option \<Rightarrow> jsval" where
  "resolveInputData args inputParam =
     (case args of
        [] \<Rightarrow> JUndefined
      | firstArg # rest \<Rightarrow>
          (case inputParam of
             None \<Rightarrow> firstArg
           | Some p \<Rightarrow>
               if p = [] then firstArg
               else if truthy firstArg \<and> typeof firstArg = js ''object''
                       \<and> \<not> isArray firstArg \<and> has_key p firstArg
                    then get_key p firstArg
               else firstArg))"

text \<open>
  What the producer is called with: the caller's values, the state in a position of its
  own, or the first options object with its \<open>retry\<close> property set to the state.
\<close>

datatype call_arg =
    Arg jsval
  | StateArg RetryState
  | WithRetry "(jstring \<times> jsval) list" RetryState

fun props :: "jsval \<Rightarrow> (jstring \<times> jsval) list" where
  "props (JObj kvs) = kvs"
| "props v = []"

definition buildCallArgs :: "jsval list \<Rightarrow> RetryState \<Rightarrow> call_arg list" where
  "buildCallArgs args state =
     (if length args \<ge> 2 then
        (if args ! 1 = JUndefined then (map Arg args)[1 := StateArg state]
         else map Arg args)
      else
        (case args of
           firstArg # rest \<Rightarrow>
             if truthy firstArg \<and> typeof firstArg = js ''object'' \<and> \<not> isArray firstArg
                \<and> has_key (js ''retry'') firstArg
                \<and> get_key (js ''retry'') firstArg = JUndefined
             then WithRetry (props firstArg) state # map Arg rest
             else map Arg args @ [StateArg state]
         | [] \<Rightarrow> map Arg args @ [StateArg state]))"

subsection \<open>Failure policy\<close>

text \<open>
  A call of a function supplied by the user either returns a value, throws a
  \<open>ParseError\<close>, or throws something else; \<open>'e\<close> is the type of everything else that
  can be thrown.
\<close>

datatype 'e outcome =
    Returned jsval
  | ThrewParseError ParseError
  | Threw 'e

text \<open>
  The option \<open>onFail\<close> is one of six strings or a function of the violation.  The
  function may return or throw; it has no effect on the world of the wrapped function.
\<close>

datatype 'e onFail =
    raise
  | throw
  | return_none
  | returnNull
  | return_input
  | returnInput
  | handler "HandoffViolation \<Rightarrow> 'e outcome"

text \<open>What a guarded call can throw.\<close>

datatype 'e thrown =
    ViolationThrown HandoffViolation
  | ParseErrorThrown ParseError
  | OtherThrown 'e
  | ErrorThrown jstring

fun handleFailure :: "HandoffViolation \<Rightarrow> jsval \<Rightarrow> 'e onFail \<Rightarrow> 'e thrown + jsval" where
  "handleFailure violation inputData raise = Inl (ViolationThrown violation)"
| "handleFailure violation inputData throw = Inl (ViolationThrown violation)"
| "handleFailure violation inputData return_none = Inr JNull"
| "handleFailure violation inputData returnNull = Inr JNull"
| "handleFailure violation inputData return_input = Inr inputData"
| "handleFailure violation inputData returnInput = Inr inputData"
| "handleFailure violation inputData (handler h) =
     (case h violation of
        Returned v \<Rightarrow> Inr v
      | ThrewParseError error \<Rightarrow> Inl (ParseErrorThrown error)
      | Threw e \<Rightarrow> Inl (OtherThrown e))"

subsection \<open>The guarded call\<close>

text \<open>
  One invocation of the wrapped function \<open>fn\<close> has an outcome and may have effects: it
  maps the world before the call to the world after it.  It sees the content of the
  ambient store and the arguments built for it.
\<close>

type_synonym ('w, 'e) producer =
  "RetryState option \<Rightarrow> call_arg list \<Rightarrow> 'w \<Rightarrow> 'e outcome \<times> 'w"

record 'e GuardOptions =
  o_input :: "schema option"
  o_output :: "schema option"
  o_nodeName :: "jstring option"
  o_maxAttempts :: "int option"
  o_retryOn :: "kind list option"
  o_onFail :: "'e onFail option"
  o_inputParam :: "jstring option"

text \<open>
  The variables that the function \<open>guarded\<close> closes over: the options with their
  defaults, the wrapped function, and the built-ins \<open>JSON.stringify\<close> (\<open>None\<close> for
  \<open>undefined\<close>) and \<open>Date.now\<close>, which reads the clock of the world.  In \<open>guard\<close>,
  \<open>fn_name\<close> is the value of \<open>fn.name ?? 'anonymous'\<close>.  The number \<open>maxAttempts\<close> is
  an integer.
\<close>

record ('w, 'e) closure =
  inputSchema :: "schema option"
  outputSchema :: "schema option"
  resolvedNodeName :: jstring
  maxAttempts :: int
  retryOn :: "kind list"
  onFail_of :: "'e onFail"
  inputParam :: "jstring option"
  fn_of :: "('w, 'e) producer"
  stringify :: "jsval \<Rightarrow> jstring option"
  now :: "'w \<Rightarrow> int"

definition guard ::
  "'e GuardOptions \<Rightarrow> jstring \<Rightarrow> ('w, 'e) producer \<Rightarrow> (jsval \<Rightarrow> jstring option) \<Rightarrow> ('w \<Rightarrow> int)
     \<Rightarrow> ('w, 'e) closure" where
  "guard options fn_name fn json_stringify date_now =
     \<lparr>inputSchema = o_input options,
      outputSchema = o_output options,
      resolvedNodeName = (case o_nodeName options of Some n \<Rightarrow> n | None \<Rightarrow> fn_name),
      maxAttempts = (case o_maxAttempts options of Some m \<Rightarrow> m | None \<Rightarrow> 1),
      retryOn = (case o_retryOn options of Some ks \<Rightarrow> ks | None \<Rightarrow> [validation, parse]),
      onFail_of = (case o_onFail options of Some f \<Rightarrow> f | None \<Rightarrow> raise),
      inputParam = o_inputParam options,
      fn_of = fn,
      stringify = json_stringify,
      now = date_now\<rparr>"

text \<open>
  The result of a guarded call, with what the call did on the way: the value returned or
  the error thrown, the violation that \<open>handleFailure\<close> was applied to last before the
  call ended (if it was applied in the last attempt), as the policy received it, the
  number of invocations of the wrapped function, the array \<open>history\<close> as the call left
  it, the states published in order, and the world afterwards.
\<close>

record ('w, 'e) run =
  r_result :: "'e thrown + jsval"
  r_violation :: "HandoffViolation option"
  r_calls :: nat
  r_history :: "AttemptRecord list"
  r_published :: "RetryState list"
  r_world :: 'w

text \<open>The variables of the retry loop, with the same bookkeeping.\<close>

record 'w loop_state =
  ls_attempt :: int
  ls_history :: "AttemptRecord list"
  ls_lastError :: "Diagnostic option"
  ls_calls :: nat
  ls_published :: "RetryState list"
  ls_world :: 'w

definition attempt_state ::
  "int \<Rightarrow> int \<Rightarrow> Diagnostic option \<Rightarrow> AttemptRecord list \<Rightarrow> RetryState" where
  "attempt_state attempt maxAtt lastError history =
     \<lparr>rs_attempt = attempt, rs_maxAttempts = maxAtt, rs_remaining = maxAtt - attempt,
      rs_isRetry = (attempt > 1), rs_isFinalAttempt = (attempt = maxAtt),
      rs_lastError = lastError, rs_history = history,
      rs_feedback = formatFeedback lastError\<rparr>"

definition fieldPath_of :: "issue \<Rightarrow> jstring" where
  "fieldPath_of firstError = or_else (join (js ''.'') (iss_path firstError)) (js ''root'')"

definition finish ::
  "'e thrown + jsval \<Rightarrow> HandoffViolation option \<Rightarrow> nat \<Rightarrow> AttemptRecord list
     \<Rightarrow> RetryState list \<Rightarrow> 'w \<Rightarrow> ('w, 'e) run" where
  "finish res v calls history published w =
     \<lparr>r_result = res, r_violation = v, r_calls = calls, r_history = history,
      r_published = published, r_world = w\<rparr>"

text \<open>The test \<open>error instanceof ParseError\<close> on what a call of the policy throws.\<close>

fun thrown_ParseError :: "'e thrown + jsval \<Rightarrow> ParseError option" where
  "thrown_ParseError (Inl (ParseErrorThrown error)) = Some error"
| "thrown_ParseError res = None"

text \<open>
  The \<open>catch\<close> clause for an error that is a \<open>ParseError\<close>, with the variables of the
  attempt: \<open>Inl\<close> is \<open>continue\<close>, \<open>Inr\<close> ends the call.  The call of \<open>handleFailure\<close>
  in it is outside the \<open>try\<close> block, so whatever it throws leaves the call.  \<open>applied\<close>
  is the violation that the policy was applied to before the error was caught, if any.
\<close>

definition catch_ParseError ::
  "('w, 'e) closure \<Rightarrow> jsval \<Rightarrow> int \<Rightarrow> int \<Rightarrow> AttemptRecord list \<Rightarrow> nat
     \<Rightarrow> RetryState list \<Rightarrow> HandoffViolation option \<Rightarrow> ParseError \<Rightarrow> 'w
     \<Rightarrow> 'w loop_state + ('w, 'e) run" where
  "catch_ParseError C inputData attempt startTime history calls published applied error w =
     (let durationMs = now C w - startTime;
          diagnostic = createDiagnostic
            \<lparr>d_type = parse, d_message = pe_message error, d_field = None,
             d_expected = None, d_received = None,
             d_suggestion = Some (js ''Return valid JSON''),
             d_rawOutput = Some (pe_rawOutput error)\<rparr>;
          history' = history @
            [\<lparr>ar_attempt = attempt, ar_timestamp = now C w, ar_durationMs = durationMs,
              ar_diagnostic = Some diagnostic\<rparr>]
      in if attempt < maxAttempts C \<and> parse \<in> set (retryOn C) then
           Inl \<lparr>ls_attempt = attempt, ls_history = history',
                ls_lastError = Some diagnostic, ls_calls = calls,
                ls_published = published, ls_world = w\<rparr>
         else if maxAttempts C = 1 \<or> parse \<notin> set (retryOn C) then
           Inr (finish (Inl (ParseErrorThrown error)) applied calls history' published w)
         else
           let violation = new_HandoffViolation
                 \<lparr>vc_nodeName = resolvedNodeName C,
                  vc_contractType = OutputContract,
                  vc_fieldPath = js ''root'',
                  vc_expected = js ''Valid JSON'',
                  vc_received = slice0 200 (pe_rawOutput error),
                  vc_receivedType = js ''string'',
                  vc_suggestion = js ''Return valid JSON''\<rparr>
                 (Some history')
           in Inr (finish (handleFailure violation inputData (onFail_of C))
                     (Some violation) calls history' published w))"

text \<open>
  The body of the \<open>for\<close> loop for one value of \<open>attempt\<close>: \<open>Inl\<close> is \<open>continue\<close> with the
  updated variables, \<open>Inr\<close> is a \<open>return\<close> or a \<open>throw\<close> out of the call.  After a failed
  output validation \<open>handleFailure\<close> is called inside the \<open>try\<close> block: a \<open>ParseError\<close>
  that the policy throws there is caught like one of the wrapped function, and anything
  else that it throws is thrown again by the \<open>catch\<close> clause as it is.
\<close>

definition attempt_body ::
  "('w, 'e) closure \<Rightarrow> jsval list \<Rightarrow> jsval \<Rightarrow> 'w loop_state
     \<Rightarrow> 'w loop_state + ('w, 'e) run" where
  "attempt_body C args inputData L =
     (let attempt = ls_attempt L;
          history = ls_history L;
          startTime = now C (ls_world L);
          state = attempt_state attempt (maxAttempts C) (ls_lastError L) history;
          (out, w) = runWithRetryStateAsync state
                       (\<lambda>store. fn_of C store (buildCallArgs args state)) (ls_world L);
          calls = ls_calls L + 1;
          published = ls_published L @ [state]
      in case out of
        Returned result \<Rightarrow>
          (case (case outputSchema C of Some sch \<Rightarrow> sch result | None \<Rightarrow> None) of
             Some firstError \<Rightarrow>
               let diagnostic = createDiagnostic
                     \<lparr>d_type = validation, d_message = iss_message firstError,
                      d_field = Some (fieldPath_of firstError),
                      d_expected = Some (iss_message firstError),
                      d_received = map_option (slice0 200) (stringify C result),
                      d_suggestion = Some (generateSuggestion firstError),
                      d_rawOutput = None\<rparr>;
                   history' = history @
                     [\<lparr>ar_attempt = attempt, ar_timestamp = now C w,
                       ar_durationMs = now C w - startTime,
                       ar_diagnostic = Some diagnostic\<rparr>]
               in if attempt < maxAttempts C \<and> validation \<in> set (retryOn C) then
                    Inl \<lparr>ls_attempt = attempt, ls_history = history',
                         ls_lastError = Some diagnostic, ls_calls = calls,
                         ls_published = published, ls_world = w\<rparr>
                  else
                    let violation = new_HandoffViolation
                          \<lparr>vc_nodeName = resolvedNodeName C,
                           vc_contractType = OutputContract,
                           vc_fieldPath = fieldPath_of firstError,
                           vc_expected = iss_message firstError,
                           vc_received = tmpl (map_option (slice0 200) (stringify C result)),
                           vc_receivedType = typeof result,
                           vc_suggestion = generateSuggestion firstError\<rparr>
                          (Some history');
                        res = handleFailure violation inputData (onFail_of C)
                    in (case thrown_ParseError res of
                          Some error \<Rightarrow>
                            catch_ParseError C inputData attempt startTime history' calls
                              published (Some violation) error w
                        | None \<Rightarrow>
                            Inr (finish res (Some violation) calls history' published w))
           | None \<Rightarrow>
               Inr (finish (Inr result) None calls
                      (history @
                        [\<lparr>ar_attempt = attempt, ar_timestamp = now C w,
                          ar_durationMs = now C w - startTime, ar_diagnostic = None\<rparr>])
                      published w))
      | ThrewParseError error \<Rightarrow>
          catch_ParseError C inputData attempt startTime history calls published None error w
      | Threw e \<Rightarrow>
          Inr (finish (Inl (OtherThrown e)) None calls history published w))"

text \<open>The \<open>for\<close> loop: \<open>attempt\<close> is incremented on \<open>continue\<close>.\<close>

function attempt_loop ::
  "('w, 'e) closure \<Rightarrow> jsval list \<Rightarrow> jsval \<Rightarrow> 'w loop_state \<Rightarrow> ('w, 'e) run" where
  "attempt_loop C args inputData L =
     (if ls_attempt L \<le> maxAttempts C then
        (case attempt_body C args inputData L of
           Inl L' \<Rightarrow> attempt_loop C args inputData (L'\<lparr>ls_attempt := ls_attempt L + 1\<rparr>)
         | Inr r \<Rightarrow> r)
      else
        finish (Inl (ErrorThrown (js ''Unexpected end of retry loop''))) None
          (ls_calls L) (ls_history L) (ls_published L) (ls_world L))"
  by pat_completeness auto
termination
  by (relation "measure (\<lambda>(C, args, inputData, L). nat (maxAttempts C + 1 - ls_attempt L))")
     auto

declare attempt_loop.simps [simp del]

definition guarded :: "('w, 'e) closure \<Rightarrow> jsval list \<Rightarrow> 'w \<Rightarrow> ('w, 'e) run" where
  "guarded C args w0 =
     (let inputData = resolveInputData args (inputParam C) in
      case (case inputSchema C of Some sch \<Rightarrow> sch inputData | None \<Rightarrow> None) of
        Some firstError \<Rightarrow>
          let violation = new_HandoffViolation
                \<lparr>vc_nodeName = resolvedNodeName C,
                 vc_contractType = InputContract,
                 vc_fieldPath = fieldPath_of firstError,
                 vc_expected = iss_message firstError,
                 vc_received = tmpl (map_option (slice0 200) (stringify C inputData)),
                 vc_receivedType = typeof inputData,
                 vc_suggestion = generateSuggestion firstError\<rparr>
                None
          in finish (handleFailure violation inputData (onFail_of C)) (Some violation)
               0 [] [] w0
      | None \<Rightarrow>
          attempt_loop C args inputData
            \<lparr>ls_attempt = 1, ls_history = [], ls_lastError = None, ls_calls = 0,
             ls_published = [], ls_world = w0\<rparr>)"

section \<open>Notions used in the statements\<close>

subsection \<open>Attempts of one call\<close>

text \<open>
  The input check of \<open>guarded\<close> lets a call through to the retry loop when there is no
  input schema or the schema accepts the resolved input.
\<close>

definition passes_input :: "('w, 'e) closure \<Rightarrow> jsval list \<Rightarrow> bool" where
  "passes_input C args =
     ((case inputSchema C of Some sch \<Rightarrow> sch (resolveInputData args (inputParam C))
       | None \<Rightarrow> None) = None)"

text \<open>The variables of the loop when it is entered.\<close>

definition first_state :: "'w \<Rightarrow> 'w loop_state" where
  "first_state w0 = \<lparr>ls_attempt = 1, ls_history = [], ls_lastError = None, ls_calls = 0,
             ls_published = [], ls_world = w0\<rparr>"

text \<open>
  The loop states that a call goes through: the first one, and the one after each
  \<open>continue\<close>.
\<close>

inductive reached :: "('w, 'e) closure \<Rightarrow> jsval list \<Rightarrow> 'w \<Rightarrow> 'w loop_state \<Rightarrow> bool"
  for C :: "('w, 'e) closure" and args :: "jsval list" and w0 :: 'w where
  first: "passes_input C args \<Longrightarrow> reached C args w0 (first_state w0)"
| continue: "reached C args w0 L \<Longrightarrow> ls_attempt L \<le> maxAttempts C
     \<Longrightarrow> attempt_body C args (resolveInputData args (inputParam C)) L = Inl L'
     \<Longrightarrow> reached C args w0 (L'\<lparr>ls_attempt := ls_attempt L + 1\<rparr>)"

text \<open>
  The state published for the attempt that starts in loop state \<open>L\<close>, and the outcome
  of invoking the wrapped function under it.
\<close>

definition published_state :: "('w, 'e) closure \<Rightarrow> 'w loop_state \<Rightarrow> RetryState" where
  "published_state C L =
     attempt_state (ls_attempt L) (maxAttempts C) (ls_lastError L) (ls_history L)"

definition invoke :: "('w, 'e) closure \<Rightarrow> jsval list \<Rightarrow> 'w loop_state \<Rightarrow> 'e outcome \<times> 'w" where
  "invoke C args L =
     fn_of C (Some (published_state C L)) (buildCallArgs args (published_state C L))
       (ls_world L)"

text \<open>
  The record pushed for a failed attempt, the diagnostics built for the two kinds of
  failure, and the violations built when output validation fails for the last time and
  when a \<open>ParseError\<close> is caught for the last time.
\<close>

definition failure_record :: "('w, 'e) closure \<Rightarrow> 'w loop_state \<Rightarrow> 'w \<Rightarrow> Diagnostic \<Rightarrow> AttemptRecord" where
  "failure_record C L w d =
     \<lparr>ar_attempt = ls_attempt L, ar_timestamp = now C w,
      ar_durationMs = now C w - now C (ls_world L), ar_diagnostic = Some d\<rparr>"

definition validation_diagnostic :: "('w, 'e) closure \<Rightarrow> jsval \<Rightarrow> issue \<Rightarrow> Diagnostic" where
  "validation_diagnostic C result firstError =
     createDiagnostic
       \<lparr>d_type = validation, d_message = iss_message firstError,
        d_field = Some (fieldPath_of firstError),
        d_expected = Some (iss_message firstError),
        d_received = map_option (slice0 200) (stringify C result),
        d_suggestion = Some (generateSuggestion firstError),
        d_rawOutput = None\<rparr>"

definition parse_diagnostic :: "ParseError \<Rightarrow> Diagnostic" where
  "parse_diagnostic err =
     createDiagnostic
       \<lparr>d_type = parse, d_message = pe_message err, d_field = None,
        d_expected = None, d_received = None,
        d_suggestion = Some (js ''Return valid JSON''),
        d_rawOutput = Some (pe_rawOutput err)\<rparr>"

definition output_violation ::
  "('w, 'e) closure \<Rightarrow> jsval \<Rightarrow> issue \<Rightarrow> AttemptRecord list \<Rightarrow> HandoffViolation" where
  "output_violation C result firstError h =
     new_HandoffViolation
       \<lparr>vc_nodeName = resolvedNodeName C,
        vc_contractType = OutputContract,
        vc_fieldPath = fieldPath_of firstError,
        vc_expected = iss_message firstError,
        vc_received = tmpl (map_option (slice0 200) (stringify C result)),
        vc_receivedType = typeof result,
        vc_suggestion = generateSuggestion firstError\<rparr>
       (Some h)"

definition parse_violation ::
  "('w, 'e) closure \<Rightarrow> ParseError \<Rightarrow> AttemptRecord list \<Rightarrow> HandoffViolation" where
  "parse_violation C err h =
     new_HandoffViolation
       \<lparr>vc_nodeName = resolvedNodeName C,
        vc_contractType = OutputContract,
        vc_fieldPath = js ''root'',
        vc_expected = js ''Valid JSON'',
        vc_received = slice0 200 (pe_rawOutput err),
        vc_receivedType = js ''string'',
        vc_suggestion = js ''Return valid JSON''\<rparr>
       (Some h)"

text \<open>
  A failure policy that never throws a \<open>ParseError\<close>: each of the six named policies,
  and a function that throws none.
\<close>

definition quiet_policy :: "('w, 'e) closure \<Rightarrow> bool" where
  "quiet_policy C =
     (\<forall>v inputData error.
        handleFailure v inputData (onFail_of C) \<noteq> Inl (ParseErrorThrown error))"

text \<open>
  A wrapped function that counts its own invocations in the world, as the counter
  \<open>callCount\<close> of the tests does.
\<close>

definition counted :: "('w, 'e) producer \<Rightarrow> ('w \<times> nat, 'e) producer" where
  "counted f store cargs wn =
     (case f store cargs (fst wn) of (out, w') \<Rightarrow> (out, (w', Suc (snd wn))))"

text \<open>
  How a call ends when every attempt fails output validation and \<open>validation\<close> is
  retried: the wrapped function has run \<open>maxAttempts\<close> times, and a violation \<open>v1\<close>
  with one record per attempt is handed to the failure policy.  If the policy returns or
  throws anything but a \<open>ParseError\<close>, that is the end of the call.  If it throws a
  \<open>ParseError\<close>, the \<open>catch\<close> clause of the loop takes the error for one of the
  wrapped function, pushes one more record for the last attempt, and throws the error
  again or applies the policy a second time, to a violation \<open>v2\<close> with the longer
  history.
\<close>

definition exhausted :: "('w \<times> nat, 'e) closure \<Rightarrow> jsval \<Rightarrow> nat \<Rightarrow> ('w \<times> nat, 'e) run \<Rightarrow> bool" where
  "exhausted C inp n0 r =
     (snd (r_world r) = n0 + nat (maxAttempts C) \<and> r_calls r = nat (maxAttempts C)
      \<and> map rs_attempt (r_published r) = [1..maxAttempts C]
      \<and> (\<exists>v1. map ar_attempt (hv_history v1) = [1..maxAttempts C]
            \<and> vc_contractType (hv_context v1) = OutputContract
            \<and> ((\<forall>error. handleFailure v1 inp (onFail_of C) \<noteq> Inl (ParseErrorThrown error)) \<longrightarrow>
                  r_violation r = Some v1 \<and> r_history r = hv_history v1
                  \<and> r_result r = handleFailure v1 inp (onFail_of C))
            \<and> (\<forall>error. handleFailure v1 inp (onFail_of C) = Inl (ParseErrorThrown error) \<longrightarrow>
                  map ar_attempt (r_history r) = [1..maxAttempts C] @ [maxAttempts C]
                  \<and> (maxAttempts C = 1 \<or> parse \<notin> set (retryOn C) \<longrightarrow>
                       r_violation r = Some v1
                       \<and> r_result r = Inl (ParseErrorThrown error))
                  \<and> (1 < maxAttempts C \<and> parse \<in> set (retryOn C) \<longrightarrow>
                       (\<exists>v2. r_violation r = Some v2 \<and> hv_history v2 = r_history r
                          \<and> vc_contractType (hv_context v2) = OutputContract
                          \<and> r_result r = handleFailure v2 inp (onFail_of C))))))"

text \<open>A record whose diagnostic, if any, carries at most 500 code units of raw output.\<close>

definition bounded_record :: "AttemptRecord \<Rightarrow> bool" where
  "bounded_record rec =
     (case ar_diagnostic rec of
        None \<Rightarrow> True
      | Some d \<Rightarrow> (case d_rawOutput d of None \<Rightarrow> True | Some r \<Rightarrow> length r \<le> 500))"

text \<open>The derived fields of a state agree with its attempt number and maximum.\<close>

definition state_consistent :: "RetryState \<Rightarrow> bool" where
  "state_consistent s =
     (rs_remaining s = rs_maxAttempts s - rs_attempt s
      \<and> rs_isRetry s = (rs_attempt s > 1)
      \<and> rs_isFinalAttempt s = (rs_attempt s = rs_maxAttempts s))"

subsection \<open>JSON texts\<close>

text \<open>
  A text that consists of white space only, and a JSON text wrapped in a Markdown fence
  with the language tag \<open>json\<close>.
\<close>

definition blank :: "jstring \<Rightarrow> bool" where
  "blank s = list_all js_ws s"

definition fenced :: "jstring \<Rightarrow> jstring" where
  "fenced j = fence @ js ''json'' @ [0x0A] @ j @ [0x0A] @ fence"

text \<open>
  In the JSON grammar a text is a value between optional white space (space, TAB, LF,
  CR), and a value starts with a brace, a bracket, a quote, a minus sign, a digit, or the
  first letter of \<open>true\<close>, \<open>false\<close> or \<open>null\<close>.
\<close>

definition json_ws :: "16 word \<Rightarrow> bool" where
  "json_ws c = (c = 0x20 \<or> c = 0x09 \<or> c = 0x0A \<or> c = 0x0D)"

definition json_value_start :: "16 word \<Rightarrow> bool" where
  "json_value_start c =
     (c = 0x7B \<or> c = 0x5B \<or> c = 0x22 \<or> c = 0x2D \<or> (0x30 \<le> c \<and> c \<le> 0x39)
      \<or> c = 0x74 \<or> c = 0x66 \<or> c = 0x6E)"

definition json_text_start :: "jstring \<Rightarrow> bool" where
  "json_text_start t =
     (case dropWhile json_ws t of [] \<Rightarrow> False | c # cs \<Rightarrow> json_value_start c)"

section \<open>Example configurations\<close>

text \<open>
  A schema that rejects every value, producers that always return an invalid value,
  always throw a \<open>ParseError\<close>, or always throw another error, a policy that throws a
  \<open>ParseError\<close>, and guards built from them.  \<open>JSON.stringify\<close> is given by its table
  on the values that occur.
\<close>

definition ex_issue :: issue where
  "ex_issue = \<lparr>iss_path = [js ''score''], iss_message = js ''Required'',
     iss_code = js ''invalid_type'', iss_expected = Some (js ''number''),
     iss_values = None\<rparr>"

definition reject_all :: schema where
  "reject_all v = Some ex_issue"

definition ex_result :: jsval where
  "ex_result = JObj [(js ''result'', JStr (js ''ok''))]"

definition ex_stringify :: "jsval \<Rightarrow> jstring option" where
  \<open>ex_stringify = map_of [(ex_result, js ''{"result":"ok"}'')]\<close>

definition bad_output :: "(unit, jstring) producer" where
  "bad_output store cargs w = (Returned ex_result, w)"

definition parse_fails :: "(unit, jstring) producer" where
  "parse_fails store cargs w =
     (ThrewParseError (new_ParseError (js ''bad json'') (js ''not json'')), w)"

definition throws_error :: "(unit, jstring) producer" where
  "throws_error store cargs w = (Threw (js ''missing''), w)"

definition ex_args :: "jsval list" where
  "ex_args = [JObj [(js ''x'', JNum 1)]]"

definition ex_options :: "jstring GuardOptions" where
  "ex_options = \<lparr>o_input = None, o_output = Some reject_all, o_nodeName = None,
     o_maxAttempts = Some 3, o_retryOn = None, o_onFail = None, o_inputParam = None\<rparr>"

definition ex_guard :: "(unit \<times> nat, jstring) closure" where
  "ex_guard = guard ex_options (js ''myFunc'') (counted bad_output) ex_stringify (\<lambda>w. 0)"

definition ex_error :: ParseError where
  "ex_error = new_ParseError (js ''bad json'') (js ''not json'')"

definition parse_throwing_policy :: "jstring onFail" where
  "parse_throwing_policy = handler (\<lambda>violation. ThrewParseError ex_error)"

definition slip_options :: "int \<Rightarrow> jstring GuardOptions" where
  "slip_options n = \<lparr>o_input = None, o_output = Some reject_all, o_nodeName = None,
     o_maxAttempts = Some n, o_retryOn = None, o_onFail = Some parse_throwing_policy,
     o_inputParam = None\<rparr>"

definition slip_guard :: "int \<Rightarrow> (unit \<times> nat, jstring) closure" where
  "slip_guard n =
     guard (slip_options n) (js ''myFunc'') (counted bad_output) ex_stringify (\<lambda>w. 0)"

definition input_options :: "jstring GuardOptions" where
  "input_options = \<lparr>o_input = Some reject_all, o_output = None, o_nodeName = None,
     o_maxAttempts = Some 3, o_retryOn = None, o_onFail = None, o_inputParam = None\<rparr>"

definition input_guard :: "(unit, jstring) closure" where
  "input_guard = guard input_options (js ''myFunc'') bad_output ex_stringify (\<lambda>w. 0)"

definition ex_input :: jsval where
  "ex_input = JObj [(js ''name'', JStr (js ''Test'')), (js ''value'', JNum 1)]"

definition ex_wrapped :: jsval where
  "ex_wrapped = JObj [(js ''state'', ex_input)]"

definition ex_record :: jsval where
  "ex_record = JObj [(js ''id'', JNum 7), (js ''state'', ex_input), (js ''mode'', JStr (js ''fast''))]"

definition return_input_options :: "jstring option \<Rightarrow> jstring GuardOptions" where
  "return_input_options p = \<lparr>o_input = None, o_output = Some reject_all, o_nodeName = None,
     o_maxAttempts = None, o_retryOn = None, o_onFail = Some return_input,
     o_inputParam = p\<rparr>"

definition return_input_guard :: "jstring option \<Rightarrow> (unit, jstring) closure" where
  "return_input_guard p =
     guard (return_input_options p) (js ''myFunc'') bad_output ex_stringify (\<lambda>w. 0)"

definition throwing_options :: "int \<Rightarrow> kind list \<Rightarrow> jstring GuardOptions" where
  "throwing_options n kinds = \<lparr>o_input = None, o_output = Some reject_all, o_nodeName = None,
     o_maxAttempts = Some n, o_retryOn = Some kinds, o_onFail = None, o_inputParam = None\<rparr>"

definition parse_guard :: "int \<Rightarrow> kind list \<Rightarrow> (unit, jstring) closure" where
  "parse_guard n kinds =
     guard (throwing_options n kinds) (js ''myFunc'') parse_fails ex_stringify (\<lambda>w. 0)"

definition error_guard :: "(unit, jstring) closure" where
  "error_guard =
     guard (throwing_options 3 [validation, parse]) (js ''myFunc'') throws_error ex_stringify
       (\<lambda>w. 0)"

text \<open>
  A wrapped function that reads the attempt number from the ambient state: it returns an
  invalid value in the first attempt and throws an error afterwards.  The guard around
  it retries \<open>parse\<close> only and has the policy that throws a \<open>ParseError\<close>.
\<close>

definition invalid_then_throws :: "(unit, jstring) producer" where
  "invalid_then_throws store cargs w =
     (if rs_attempt (retry store) = 1 then (Returned ex_result, w)
      else (Threw (js ''missing''), w))"

definition slip_continue_options :: "jstring GuardOptions" where
  "slip_continue_options = \<lparr>o_input = None, o_output = Some reject_all, o_nodeName = None,
     o_maxAttempts = Some 2, o_retryOn = Some [parse], o_onFail = Some parse_throwing_policy,
     o_inputParam = None\<rparr>"

definition slip_continue_guard :: "(unit, jstring) closure" where
  "slip_continue_guard =
     guard slip_continue_options (js ''myFunc'') invalid_then_throws ex_stringify (\<lambda>w. 0)"

definition long_raw :: jstring where
  "long_raw = replicate 2000 0x78"

definition long_parse_fails :: "(unit, jstring) producer" where
  "long_parse_fails store cargs w = (ThrewParseError (new_ParseError (js ''bad json'') long_raw), w)"

definition long_error :: ParseError where
  "long_error = new_ParseError (js ''bad json'') long_raw"

definition long_guard1 :: "(unit, jstring) closure" where
  "long_guard1 =
     guard (throwing_options 1 [validation, parse]) (js ''myFunc'') long_parse_fails ex_stringify
       (\<lambda>w. 0)"

definition ex_mock_options :: MockRetryOptions where
  "ex_mock_options = \<lparr>mo_attempt = Some 3, mo_maxAttempts = Some 5, mo_lastError = None,
     mo_feedbackText = Some (js ''Fix the output'')\<rparr>"

section \<open>Properties of the string operations\<close>

lemma js_ws_LF: "js_ws 0x0A"
  by (simp add: js_ws_def)

lemma not_ws_tick: "\<not> js_ws 0x60"
  by (simp add: js_ws_def)

lemma trimEnd_snoc_nws: "\<not> js_ws c \<Longrightarrow> trimEnd (s @ [c]) = s @ [c]"
  by (simp add: trimEnd_def)

lemma trim_snoc_ws: "js_ws c \<Longrightarrow> trim (s @ [c]) = trim s"
proof (cases "\<forall>x\<in>set s. js_ws x")
  case True
  assume "js_ws c"
  with True have "dropWhile js_ws (s @ [c]) = []" "dropWhile js_ws s = []"
    by simp_all
  then show ?thesis by (simp only: trim_def trimStart_def)
next
  case False
  assume c: "js_ws c"
  from False have "dropWhile js_ws (s @ [c]) = dropWhile js_ws s @ [c]"
    by (simp add: dropWhile_append)
  then show ?thesis using c by (simp add: trim_def trimStart_def trimEnd_def)
qed

lemma trim_strip_bom: "trim (strip_bom s) = trim s"
  by (cases s) (simp_all add: strip_bom_def trim_def trimStart_def slice_from_def js_ws_def BOM_def)

lemma strip_fences_strip_bom: "strip_fences (strip_bom s) = strip_fences s"
  by (simp add: strip_fences_def trim_strip_bom)

lemma strip_fences_fence:
  assumes "trim t = t" and "startsWith t fence"
    and "drop (length (takeWhile (\<lambda>c. c \<noteq> 0x0A) t) + 1) t = b"
    and "trimEnd b = b" and "endsWith b fence"
  shows "strip_fences t = trim (take (length b - 3) b)"
  using assms by (simp add: strip_fences_def Let_def slice_from_def slice0_neg_def)

lemma strip_fences_between:
  assumes "0x0A \<notin> set tag"
  shows "strip_fences (fence @ tag @ [0x0A] @ body @ fence) = trim body"
proof -
  let ?t = "fence @ tag @ [0x0A] @ body @ fence"
  let ?b = "body @ fence"
  have t: "?t = (fence @ tag @ [0x0A] @ body @ [0x60, 0x60]) @ [0x60]"
    by (simp add: fence_def)
  have "trimStart ?t = ?t"
    by (simp add: trimStart_def fence_def not_ws_tick)
  moreover have "trimEnd ?t = ?t"
    unfolding t by (rule trimEnd_snoc_nws) (rule not_ws_tick)
  ultimately have 1: "trim ?t = ?t"
    by (simp add: trim_def)
  have 2: "startsWith ?t fence"
    by (simp add: startsWith_def)
  have "takeWhile (\<lambda>c. c \<noteq> 0x0A) ((fence @ tag) @ [0x0A] @ body @ fence) = fence @ tag"
    using assms by (subst takeWhile_append2) (auto simp add: fence_def)
  then have "takeWhile (\<lambda>c. c \<noteq> 0x0A) ?t = fence @ tag"
    by simp
  then have 3: "drop (length (takeWhile (\<lambda>c. c \<noteq> 0x0A) ?t) + 1) ?t = ?b"
    by simp
  have b: "?b = (body @ [0x60, 0x60]) @ [0x60]"
    by (simp add: fence_def)
  have 4: "trimEnd ?b = ?b"
    unfolding b by (rule trimEnd_snoc_nws) (rule not_ws_tick)
  have 5: "endsWith ?b fence"
    by (simp add: endsWith_def fence_def)
  have "strip_fences ?t = trim (take (length ?b - 3) ?b)"
    by (rule strip_fences_fence [OF 1 2 3 4 5])
  also have "take (length ?b - 3) ?b = body"
    by (simp add: fence_def)
  finally show ?thesis .
qed

lemma strip_fences_fenced: "strip_fences (fenced j) = trim j"
proof -
  have "(0x0A :: 16 word) \<notin> set (js ''json'')"
    by (simp add: js_def)
  from strip_fences_between [OF this, of "j @ [0x0A]"]
  show ?thesis
    by (simp add: fenced_def trim_snoc_ws js_ws_LF)
qed

lemma json_ws_js_ws: "json_ws c \<Longrightarrow> js_ws c"
  by (auto simp add: json_ws_def js_ws_def)

lemma json_value_start_not_ws: "json_value_start c \<Longrightarrow> \<not> js_ws c"
  unfolding json_value_start_def js_ws_def
  by (auto simp add: word_le_def)

lemma json_value_start_not_tick: "json_value_start c \<Longrightarrow> c \<noteq> 0x60"
  unfolding json_value_start_def by auto

lemma trimStart_json_text:
  "json_text_start t \<Longrightarrow> \<exists>c cs. trimStart t = c # cs \<and> json_value_start c"
proof (induction t)
  case Nil
  then show ?case by (simp add: json_text_start_def)
next
  case (Cons a t)
  show ?case
  proof (cases "json_ws a")
    case True
    with Cons show ?thesis
      by (simp add: json_text_start_def trimStart_def json_ws_js_ws)
  next
    case False
    with Cons.prems have "json_value_start a"
      by (simp add: json_text_start_def)
    then show ?thesis
      by (simp add: trimStart_def json_value_start_not_ws)
  qed
qed

lemma trimEnd_Cons_nws: "\<not> js_ws c \<Longrightarrow> trimEnd (c # cs) = c # trimEnd cs"
proof (cases "\<forall>x\<in>set cs. js_ws x")
  case True
  assume "\<not> js_ws c"
  moreover from True have "dropWhile js_ws (rev cs) = []" by simp
  ultimately show ?thesis using True by (simp add: trimEnd_def dropWhile_append)
next
  case False
  then show ?thesis by (simp add: trimEnd_def dropWhile_append)
qed

lemma strip_fences_cong: "trim s = trim t \<Longrightarrow> strip_fences s = strip_fences t"
  by (simp add: strip_fences_def)

lemma trim_append_blank: "blank b \<Longrightarrow> trim (t @ b) = trim t"
proof (induction b rule: rev_induct)
  case Nil
  then show ?case by simp
next
  case (snoc c b)
  then have "js_ws c" "blank b"
    by (simp_all add: blank_def)
  with snoc.IH trim_snoc_ws [of c "t @ b"] show ?case
    by simp
qed

lemma trim_blank_append: "blank a \<Longrightarrow> trim (a @ t) = trim t"
  by (simp add: trim_def trimStart_def blank_def dropWhile_append2 list_all_iff)

lemma trim_surrounded: "blank a \<Longrightarrow> blank b \<Longrightarrow> trim (a @ t @ b) = trim t"
  using trim_append_blank [of b "a @ t"] trim_blank_append [of a t] by simp

lemma trim_blank: "blank s \<Longrightarrow> trim s = []"
  using trim_append_blank [of s "[]"] by (simp add: trim_def trimStart_def trimEnd_def)

lemma trimEnd_split: "\<exists>b. blank b \<and> s = trimEnd s @ b"
proof -
  have "rev s = takeWhile js_ws (rev s) @ dropWhile js_ws (rev s)"
    by simp
  then have "s = rev (dropWhile js_ws (rev s)) @ rev (takeWhile js_ws (rev s))"
    by (metis rev_append rev_rev_ident)
  moreover have "blank (rev (takeWhile js_ws (rev s)))"
    by (auto simp add: blank_def list_all_iff dest: set_takeWhileD)
  ultimately show ?thesis
    unfolding trimEnd_def by blast
qed

lemma trim_trimEnd: "trim (trimEnd s) = trim s"
proof -
  from trimEnd_split [of s] obtain b where "blank b" and s: "s = trimEnd s @ b"
    by blast
  from trim_append_blank [OF this(1), of "trimEnd s"] s show ?thesis
    by simp
qed

lemma trimEnd_idem: "trimEnd (trimEnd s) = trimEnd s"
  by (simp add: trimEnd_def)

lemma trimEnd_append_blank: "blank b \<Longrightarrow> trimEnd (x @ b) = trimEnd x"
proof -
  assume "blank b"
  then have "dropWhile js_ws (rev b @ rev x) = dropWhile js_ws (rev x)"
    by (intro dropWhile_append2) (simp add: blank_def list_all_iff)
  then show ?thesis
    by (simp add: trimEnd_def)
qed

lemma trimEnd_append: "\<not> blank y \<Longrightarrow> trimEnd (x @ y) = x @ trimEnd y"
proof -
  assume "\<not> blank y"
  then obtain c where "c \<in> set (rev y)" "\<not> js_ws c"
    by (auto simp add: blank_def list_all_iff)
  then have "dropWhile js_ws (rev y @ rev x) = dropWhile js_ws (rev y) @ rev x"
    by (rule dropWhile_append1)
  then show ?thesis
    by (simp add: trimEnd_def)
qed

lemma trim_fence_Cons: "trim (fence @ x) = fence @ trimEnd x"
  by (simp add: trim_def trimStart_def fence_def not_ws_tick trimEnd_Cons_nws)

lemma set_trimEnd: "set (trimEnd s) \<subseteq> set s"
  unfolding trimEnd_def using set_dropWhileD [of _ js_ws "rev s"] by auto

lemma strip_fences_closed:
  assumes "blank a" and "blank b" and "0x0A \<notin> set tag"
  shows "strip_fences (a @ fence @ tag @ [0x0A] @ body @ fence @ b) = trim body"
proof -
  let ?t = "fence @ tag @ [0x0A] @ body @ fence"
  have t: "trim ?t = ?t"
  proof -
    have "?t = (fence @ tag @ [0x0A] @ body @ [0x60, 0x60]) @ [0x60]"
      by (simp add: fence_def)
    then have "trimEnd ?t = ?t"
      using trimEnd_snoc_nws [OF not_ws_tick] by metis
    moreover have "trimStart ?t = ?t"
      by (simp add: trimStart_def fence_def not_ws_tick)
    ultimately show ?thesis by (simp add: trim_def)
  qed
  have "trim (a @ ?t @ b) = trim ?t"
    using assms(1,2) by (rule trim_surrounded)
  then have "strip_fences (a @ ?t @ b) = strip_fences ?t"
    using t by (intro strip_fences_cong) simp
  then show ?thesis
    using strip_fences_between [OF assms(3), of body] by simp
qed

lemma strip_fences_one_line:
  assumes "blank a" and "0x0A \<notin> set rest"
  shows "strip_fences (a @ fence @ rest) = []"
proof -
  let ?t = "fence @ trimEnd rest"
  have t: "trim (a @ fence @ rest) = ?t"
    using assms(1) by (simp add: trim_blank_append trim_fence_Cons)
  have "0x0A \<notin> set ?t"
    using assms(2) set_trimEnd [of rest] by (auto simp add: fence_def)
  then have l: "takeWhile (\<lambda>c. c \<noteq> 0x0A) ?t = ?t"
    by (intro takeWhile_eq_all_conv [THEN iffD2]) auto
  have e: "trimEnd [] = []" "trim [] = []" "\<not> endsWith [] fence"
    by (simp_all add: trimEnd_def trim_def trimStart_def endsWith_def fence_def)
  have s: "startsWith ?t fence"
    by (simp add: startsWith_def)
  show ?thesis
    unfolding strip_fences_def Let_def t l slice_from_def
    using s by (simp add: e)
qed

lemma strip_fences_unclosed:
  assumes "blank a" and "0x0A \<notin> set tag" and "\<not> endsWith (trimEnd body) fence"
  shows "strip_fences (a @ fence @ tag @ [0x0A] @ body) = trim body"
proof (cases "blank body")
  case True
  then have "blank ([0x0A] @ body)"
    by (simp add: blank_def js_ws_LF)
  then have "trimEnd (tag @ [0x0A] @ body) = trimEnd tag"
    by (rule trimEnd_append_blank)
  then have t: "trim (a @ fence @ tag @ [0x0A] @ body) = trim (a @ fence @ tag)"
    using assms(1) by (simp add: trim_blank_append trim_fence_Cons)
  have "strip_fences (a @ fence @ tag @ [0x0A] @ body) = strip_fences (a @ fence @ tag)"
    using t by (rule strip_fences_cong)
  also have "\<dots> = []"
    using assms(1,2) by (rule strip_fences_one_line)
  finally show ?thesis
    using True by (simp add: trim_blank)
next
  case False
  let ?r = "trimEnd body"
  let ?t = "fence @ tag @ [0x0A] @ ?r"
  have "\<not> blank ([0x0A] @ body)"
    using False by (simp add: blank_def)
  then have "trimEnd (tag @ [0x0A] @ body) = tag @ trimEnd ([0x0A] @ body)"
    by (rule trimEnd_append)
  also have "trimEnd ([0x0A] @ body) = [0x0A] @ ?r"
    using False by (rule trimEnd_append)
  finally have t: "trim (a @ fence @ tag @ [0x0A] @ body) = ?t"
    using assms(1) by (simp add: trim_blank_append trim_fence_Cons)
  have "takeWhile (\<lambda>c. c \<noteq> 0x0A) ((fence @ tag) @ [0x0A] @ ?r) = fence @ tag"
    using assms(2) by (subst takeWhile_append2) (auto simp add: fence_def)
  then have l: "takeWhile (\<lambda>c. c \<noteq> 0x0A) ?t = fence @ tag"
    by simp
  have d: "drop (length (fence @ tag) + 1) ?t = ?r"
    by simp
  have s: "startsWith ?t fence"
    by (simp add: startsWith_def)
  show ?thesis
    unfolding strip_fences_def Let_def t l slice_from_def d
    using s assms(3) by (simp add: trimEnd_idem trim_trimEnd)
qed

lemma strip_fences_plain: "\<not> startsWith (trim s) fence \<Longrightarrow> strip_fences s = trim s"
  by (simp add: strip_fences_def)

lemma json_text_not_fenced:
  assumes "json_text_start t"
  shows "\<not> startsWith (trim t) fence"
proof -
  from trimStart_json_text [OF assms] obtain c cs where
    t: "trimStart t = c # cs" and c: "json_value_start c" by blast
  from trimEnd_Cons_nws [OF json_value_start_not_ws [OF c]] t
  have "trim t = c # trimEnd cs" by (simp add: trim_def)
  with json_value_start_not_tick [OF c] show ?thesis
    by (simp add: startsWith_def fence_def)
qed

lemma strip_fences_json_text: "json_text_start t \<Longrightarrow> strip_fences t = trim t"
  using json_text_not_fenced [of t] by (simp add: strip_fences_def Let_def)

lemma parseJson_non_string:
  "\<forall>s. v \<noteq> JStr s \<Longrightarrow>
   parseJson toStr json_parse v =
     Inl (new_ParseError (js ''Expected string, got '' @ typeof v) (take 500 (toStr v)))"
  by (cases v) (simp_all add: parseJson_def slice0_def)

lemma trimStart_split: "\<exists>a. blank a \<and> s = a @ trimStart s"
proof -
  have "s = takeWhile js_ws s @ dropWhile js_ws s" by simp
  moreover have "blank (takeWhile js_ws s)"
    by (simp add: blank_def list_all_iff) (meson set_takeWhileD)
  ultimately show ?thesis
    unfolding trimStart_def by blast
qed

lemma startsWith_append: "startsWith s p \<longleftrightarrow> (\<exists>rest. s = p @ rest)"
proof
  assume "startsWith s p"
  then have "s = p @ drop (length p) s"
    unfolding startsWith_def by (metis append_take_drop_id)
  then show "\<exists>rest. s = p @ rest" ..
next
  assume "\<exists>rest. s = p @ rest"
  then show "startsWith s p"
    by (auto simp add: startsWith_def)
qed

lemma endsWith_append: "endsWith s p \<longleftrightarrow> (\<exists>front. s = front @ p)"
proof
  assume "endsWith s p"
  then have "s = take (length s - length p) s @ p"
    unfolding endsWith_def by (metis append_take_drop_id)
  then show "\<exists>front. s = front @ p" ..
next
  assume "\<exists>front. s = front @ p"
  then show "endsWith s p"
    by (auto simp add: endsWith_def)
qed

lemma fence_opening:
  assumes "startsWith (trim s) fence"
  shows "\<exists>a rest. blank a \<and> s = a @ fence @ rest"
proof -
  from trimStart_split obtain a where a: "blank a" "s = a @ trimStart s" by blast
  from trimEnd_split obtain b where b: "trimStart s = trimEnd (trimStart s) @ b" by blast
  from assms obtain rest where "trim s = fence @ rest"
    by (auto simp add: startsWith_append)
  then have "trimStart s = fence @ rest @ b"
    using b by (simp add: trim_def)
  with a show ?thesis by metis
qed

lemma first_line:
  "(0x0A::16 word) \<notin> set rest \<or> (\<exists>tag body. 0x0A \<notin> set tag \<and> rest = tag @ [0x0A] @ body)"
  using split_list_first [of "0x0A" rest] by auto

lemma closing_fence:
  "\<not> endsWith (trimEnd body) fence
   \<or> (\<exists>inner b. blank b \<and> body = inner @ fence @ b)"
proof (cases "endsWith (trimEnd body) fence")
  case True
  then obtain inner where i: "trimEnd body = inner @ fence"
    by (auto simp add: endsWith_append)
  from trimEnd_split obtain b where "blank b" "body = trimEnd body @ b" by blast
  with i have "blank b \<and> body = inner @ fence @ b" by simp
  then show ?thesis by blast
qed simp

lemma strip_fences_cases:
  assumes "startsWith (trim s) fence"
  shows "(\<exists>a rest. blank a \<and> 0x0A \<notin> set rest \<and> s = a @ fence @ rest
            \<and> strip_fences s = [])
       \<or> (\<exists>a tag body b. blank a \<and> blank b \<and> 0x0A \<notin> set tag
            \<and> s = a @ fence @ tag @ [0x0A] @ body @ fence @ b
            \<and> strip_fences s = trim body)
       \<or> (\<exists>a tag body. blank a \<and> 0x0A \<notin> set tag \<and> \<not> endsWith (trimEnd body) fence
            \<and> s = a @ fence @ tag @ [0x0A] @ body
            \<and> strip_fences s = trim body)"
proof -
  from fence_opening [OF assms] obtain a rest where a: "blank a" and s: "s = a @ fence @ rest"
    by blast
  from first_line [of rest] show ?thesis
  proof
    assume "0x0A \<notin> set rest"
    with a s strip_fences_one_line [of a rest] show ?thesis by blast
  next
    assume "\<exists>tag body. 0x0A \<notin> set tag \<and> rest = tag @ [0x0A] @ body"
    then obtain tag body where t: "0x0A \<notin> set tag" and r: "rest = tag @ [0x0A] @ body"
      by blast
    from closing_fence [of body] show ?thesis
    proof
      assume e: "\<not> endsWith (trimEnd body) fence"
      from strip_fences_unclosed [OF a t e] a t e s r show ?thesis by blast
    next
      assume "\<exists>inner b. blank b \<and> body = inner @ fence @ b"
      then obtain inner b where b: "blank b" and i: "body = inner @ fence @ b" by blast
      from strip_fences_closed [OF a b t, of inner] a b t s r i show ?thesis by blast
    qed
  qed
qed

section \<open>Properties of one attempt\<close>

lemma createDiagnostic_rawOutput:
  "d_rawOutput (createDiagnostic data) = map_option (take 500) (d_rawOutput data)"
  by (simp add: createDiagnostic_def slice0_def[abs_def])

lemma bounded_failure_record [simp]:
  "bounded_record (failure_record C L w (createDiagnostic data))"
  by (simp add: bounded_record_def failure_record_def createDiagnostic_rawOutput
        split: option.splits)

lemma bounded_validation_record [simp]:
  "bounded_record (failure_record C L w (validation_diagnostic C result firstError))"
  by (simp add: validation_diagnostic_def)

lemma bounded_parse_record [simp]:
  "bounded_record (failure_record C L w (parse_diagnostic err))"
  by (simp add: parse_diagnostic_def)

lemma ar_attempt_failure_record [simp]:
  "ar_attempt (failure_record C L w d) = ls_attempt L"
  by (simp add: failure_record_def)

lemma new_HandoffViolation_Some [simp]:
  "hv_history (new_HandoffViolation ctx (Some h)) = h"
  "hv_context (new_HandoffViolation ctx hist) = ctx"
  "hv_totalAttempts (new_HandoffViolation ctx (Some h)) = (if h = [] then 1 else length h)"
  by (simp_all add: new_HandoffViolation_def Let_def)

lemma output_violation_simps [simp]:
  "hv_history (output_violation C result firstError h) = h"
  "vc_contractType (hv_context (output_violation C result firstError h)) = OutputContract"
  "hv_totalAttempts (output_violation C result firstError h) = (if h = [] then 1 else length h)"
  by (simp_all add: output_violation_def)

lemma parse_violation_simps [simp]:
  "hv_history (parse_violation C err h) = h"
  "vc_contractType (hv_context (parse_violation C err h)) = OutputContract"
  "hv_totalAttempts (parse_violation C err h) = (if h = [] then 1 else length h)"
  by (simp_all add: parse_violation_def)

lemma quiet_policyD:
  "quiet_policy C \<Longrightarrow> handleFailure v inp (onFail_of C) \<noteq> Inl (ParseErrorThrown error)"
  by (simp add: quiet_policy_def)

lemma thrown_ParseError_Some:
  "thrown_ParseError res = Some error \<longleftrightarrow> res = Inl (ParseErrorThrown error)"
  by (cases "(res)" rule: thrown_ParseError.cases) auto

lemma thrown_ParseError_quiet:
  "quiet_policy C \<Longrightarrow> thrown_ParseError (handleFailure v inp (onFail_of C)) = None"
  using thrown_ParseError_Some [of "handleFailure v inp (onFail_of C)"] quiet_policyD [of C v inp]
  by (cases "thrown_ParseError (handleFailure v inp (onFail_of C))") auto

lemma catch_ParseError_unfold:
  "catch_ParseError C inp (ls_attempt L) (now C (ls_world L)) h calls p applied err w =
     (let h' = h @ [failure_record C L w (parse_diagnostic err)]
      in if ls_attempt L < maxAttempts C \<and> parse \<in> set (retryOn C) then
           Inl \<lparr>ls_attempt = ls_attempt L, ls_history = h',
                ls_lastError = Some (parse_diagnostic err), ls_calls = calls,
                ls_published = p, ls_world = w\<rparr>
         else if maxAttempts C = 1 \<or> parse \<notin> set (retryOn C) then
           Inr (finish (Inl (ParseErrorThrown err)) applied calls h' p w)
         else
           Inr (finish (handleFailure (parse_violation C err h') inp (onFail_of C))
                  (Some (parse_violation C err h')) calls h' p w))"
  by (simp add: catch_ParseError_def Let_def failure_record_def parse_diagnostic_def
        parse_violation_def)

lemma attempt_body_Threw:
  "invoke C args L = (Threw e, w) \<Longrightarrow>
   attempt_body C args inp L =
     Inr (finish (Inl (OtherThrown e)) None (ls_calls L + 1) (ls_history L)
            (ls_published L @ [published_state C L]) w)"
  by (simp add: attempt_body_def invoke_def published_state_def Let_def
        runWithRetryStateAsync_def)

lemma attempt_body_ParseError:
  "invoke C args L = (ThrewParseError err, w) \<Longrightarrow>
   attempt_body C args inp L =
     catch_ParseError C inp (ls_attempt L) (now C (ls_world L)) (ls_history L)
       (ls_calls L + 1) (ls_published L @ [published_state C L]) None err w"
  by (simp add: attempt_body_def invoke_def published_state_def Let_def
        runWithRetryStateAsync_def)

lemma attempt_body_invalid:
  "invoke C args L = (Returned result, w) \<Longrightarrow> outputSchema C = Some sch
   \<Longrightarrow> sch result = Some firstError \<Longrightarrow>
   attempt_body C args inp L =
     (let d = validation_diagnostic C result firstError;
          h = ls_history L @ [failure_record C L w d];
          p = ls_published L @ [published_state C L];
          v = output_violation C result firstError h
      in if ls_attempt L < maxAttempts C \<and> validation \<in> set (retryOn C) then
           Inl \<lparr>ls_attempt = ls_attempt L, ls_history = h, ls_lastError = Some d,
                ls_calls = ls_calls L + 1, ls_published = p, ls_world = w\<rparr>
         else
           (case thrown_ParseError (handleFailure v inp (onFail_of C)) of
              Some error \<Rightarrow>
                catch_ParseError C inp (ls_attempt L) (now C (ls_world L)) h
                  (ls_calls L + 1) p (Some v) error w
            | None \<Rightarrow>
                Inr (finish (handleFailure v inp (onFail_of C)) (Some v) (ls_calls L + 1)
                       h p w)))"
  by (simp add: attempt_body_def invoke_def published_state_def Let_def
        runWithRetryStateAsync_def failure_record_def validation_diagnostic_def
        output_violation_def split: option.splits)

lemma attempt_body_invalid_retry:
  assumes "invoke C args L = (Returned result, w)" and "outputSchema C = Some sch"
    and "sch result = Some firstError"
    and "ls_attempt L < maxAttempts C \<and> validation \<in> set (retryOn C)"
  shows "attempt_body C args inp L =
     Inl \<lparr>ls_attempt = ls_attempt L,
          ls_history = ls_history L
            @ [failure_record C L w (validation_diagnostic C result firstError)],
          ls_lastError = Some (validation_diagnostic C result firstError),
          ls_calls = ls_calls L + 1,
          ls_published = ls_published L @ [published_state C L], ls_world = w\<rparr>"
  unfolding attempt_body_invalid [OF assms(1-3)] Let_def if_P [OF assms(4)]
  by (rule refl)

lemma attempt_body_invalid_final:
  assumes "invoke C args L = (Returned result, w)" and "outputSchema C = Some sch"
    and "sch result = Some firstError"
    and "\<not> (ls_attempt L < maxAttempts C \<and> validation \<in> set (retryOn C))"
  shows "attempt_body C args inp L =
     (case thrown_ParseError
             (handleFailure
                (output_violation C result firstError
                   (ls_history L
                     @ [failure_record C L w (validation_diagnostic C result firstError)]))
                inp (onFail_of C)) of
        Some error \<Rightarrow>
          catch_ParseError C inp (ls_attempt L) (now C (ls_world L))
            (ls_history L @ [failure_record C L w (validation_diagnostic C result firstError)])
            (ls_calls L + 1) (ls_published L @ [published_state C L])
            (Some (output_violation C result firstError
                     (ls_history L
                       @ [failure_record C L w (validation_diagnostic C result firstError)])))
            error w
      | None \<Rightarrow>
          Inr (finish
                 (handleFailure
                    (output_violation C result firstError
                       (ls_history L
                         @ [failure_record C L w (validation_diagnostic C result firstError)]))
                    inp (onFail_of C))
                 (Some (output_violation C result firstError
                          (ls_history L
                            @ [failure_record C L w
                                 (validation_diagnostic C result firstError)])))
                 (ls_calls L + 1)
                 (ls_history L
                   @ [failure_record C L w (validation_diagnostic C result firstError)])
                 (ls_published L @ [published_state C L]) w))"
  unfolding attempt_body_invalid [OF assms(1-3)] Let_def if_not_P [OF assms(4)]
  by (rule refl)

lemma attempt_body_success:
  "invoke C args L = (Returned result, w)
   \<Longrightarrow> (case outputSchema C of Some sch \<Rightarrow> sch result | None \<Rightarrow> None) = None \<Longrightarrow>
   attempt_body C args inp L =
     Inr (finish (Inr result) None (ls_calls L + 1)
            (ls_history L @
              [\<lparr>ar_attempt = ls_attempt L, ar_timestamp = now C w,
                ar_durationMs = now C w - now C (ls_world L), ar_diagnostic = None\<rparr>])
            (ls_published L @ [published_state C L]) w)"
  by (simp add: attempt_body_def invoke_def published_state_def Let_def
        runWithRetryStateAsync_def)

lemma catch_ParseError_Inl:
  assumes "catch_ParseError C inp (ls_attempt L) (now C (ls_world L)) h calls p applied err w
             = Inl L'"
  shows "ls_attempt L' = ls_attempt L \<and> ls_calls L' = calls \<and> ls_published L' = p
    \<and> ls_world L' = w
    \<and> ls_history L' = h @ [failure_record C L w (parse_diagnostic err)]"
  using assms by (auto simp add: catch_ParseError_unfold Let_def split: if_splits)

lemma catch_ParseError_Inr:
  assumes "catch_ParseError C inp (ls_attempt L) (now C (ls_world L)) h calls p applied err w
             = Inr r"
  shows "r_calls r = calls \<and> r_published r = p \<and> r_world r = w
    \<and> r_history r = h @ [failure_record C L w (parse_diagnostic err)]
    \<and> (r_violation r = applied \<and> r_result r = Inl (ParseErrorThrown err)
        \<or> (\<exists>v. r_violation r = Some v \<and> r_result r = handleFailure v inp (onFail_of C)
               \<and> hv_history v = r_history r))"
  using assms by (auto simp add: catch_ParseError_unfold Let_def finish_def split: if_splits)

text \<open>What one attempt adds to the history: one record, or two after the policy threw.\<close>

lemma attempt_body_Inl:
  assumes "attempt_body C args inp L = Inl L'"
  shows "ls_attempt L' = ls_attempt L \<and> ls_calls L' = ls_calls L + 1
    \<and> ls_published L' = ls_published L @ [published_state C L]
    \<and> ls_world L' = snd (invoke C args L)
    \<and> (\<exists>recs. ls_history L' = ls_history L @ recs \<and> recs \<noteq> []
          \<and> (\<forall>rec\<in>set recs. ar_attempt rec = ls_attempt L \<and> bounded_record rec)
          \<and> (quiet_policy C \<longrightarrow> length recs = 1))"
proof (cases "invoke C args L")
  case (Pair out w)
  show ?thesis
  proof (cases out)
    case (Returned result)
    show ?thesis
    proof (cases "case outputSchema C of Some sch \<Rightarrow> sch result | None \<Rightarrow> None")
      case None
      with Pair Returned assms show ?thesis
        by (simp add: attempt_body_success)
    next
      case (Some firstError)
      then obtain sch where sch: "outputSchema C = Some sch" "sch result = Some firstError"
        by (auto split: option.splits)
      let ?d = "validation_diagnostic C result firstError"
      let ?h = "ls_history L @ [failure_record C L w ?d]"
      let ?v = "output_violation C result firstError ?h"
      note inv = Pair [unfolded Returned]
      show ?thesis
      proof (cases "ls_attempt L < maxAttempts C \<and> validation \<in> set (retryOn C)")
        case True
        from attempt_body_invalid_retry [OF inv sch True, of inp] assms
        have "L' = \<lparr>ls_attempt = ls_attempt L, ls_history = ?h,
            ls_lastError = Some ?d, ls_calls = ls_calls L + 1,
            ls_published = ls_published L @ [published_state C L], ls_world = w\<rparr>"
          by simp
        with Pair show ?thesis
          by (intro conjI exI [of _ "[failure_record C L w ?d]"]) simp_all
      next
        case False
        note body = attempt_body_invalid_final [OF inv sch False, of inp]
        show ?thesis
        proof (cases "thrown_ParseError (handleFailure ?v inp (onFail_of C))")
          case None
          with body assms show ?thesis
            by simp
        next
          case (Some error)
          with body assms have c: "catch_ParseError C inp (ls_attempt L)
              (now C (ls_world L)) ?h (ls_calls L + 1)
              (ls_published L @ [published_state C L]) (Some ?v) error w = Inl L'"
            by simp
          from Some have nq: "\<not> quiet_policy C"
            using thrown_ParseError_quiet [of C ?v inp] by auto
          from catch_ParseError_Inl [OF c] Pair nq show ?thesis
            by (intro conjI exI [of _ "[failure_record C L w ?d,
                  failure_record C L w (parse_diagnostic error)]"]) simp_all
        qed
      qed
    qed
  next
    case (ThrewParseError err)
    from attempt_body_ParseError [OF Pair [unfolded ThrewParseError], of inp] assms
    have c: "catch_ParseError C inp (ls_attempt L) (now C (ls_world L)) (ls_history L)
       (ls_calls L + 1) (ls_published L @ [published_state C L]) None err w = Inl L'"
      by simp
    from catch_ParseError_Inl [OF c] Pair show ?thesis
      by (intro conjI exI [of _ "[failure_record C L w (parse_diagnostic err)]"]) simp_all
  next
    case (Threw e)
    with Pair assms show ?thesis
      by (simp add: attempt_body_Threw)
  qed
qed

lemma attempt_body_Inr:
  assumes "attempt_body C args inp L = Inr r"
  shows "r_calls r = ls_calls L + 1
    \<and> r_published r = ls_published L @ [published_state C L]
    \<and> r_world r = snd (invoke C args L)
    \<and> (\<forall>v. r_violation r = Some v \<longrightarrow> r_result r = handleFailure v inp (onFail_of C))
    \<and> (quiet_policy C \<longrightarrow> (\<forall>v. r_violation r = Some v \<longrightarrow> hv_history v = r_history r))
    \<and> (\<exists>recs. r_history r = ls_history L @ recs
          \<and> (\<forall>rec\<in>set recs. ar_attempt rec = ls_attempt L \<and> bounded_record rec)
          \<and> (quiet_policy C \<longrightarrow> length recs \<le> 1))"
proof (cases "invoke C args L")
  case (Pair out w)
  show ?thesis
  proof (cases out)
    case (Returned result)
    show ?thesis
    proof (cases "case outputSchema C of Some sch \<Rightarrow> sch result | None \<Rightarrow> None")
      case None
      let ?rec = "\<lparr>ar_attempt = ls_attempt L, ar_timestamp = now C w,
                ar_durationMs = now C w - now C (ls_world L), ar_diagnostic = None\<rparr>"
      from None Pair Returned assms
      have "r = finish (Inr result) None (ls_calls L + 1) (ls_history L @ [?rec])
            (ls_published L @ [published_state C L]) w"
        by (simp add: attempt_body_success)
      with Pair show ?thesis
        by (intro conjI exI [of _ "[?rec]"]) (simp_all add: finish_def bounded_record_def)
    next
      case (Some firstError)
      then obtain sch where sch: "outputSchema C = Some sch" "sch result = Some firstError"
        by (auto split: option.splits)
      let ?d = "validation_diagnostic C result firstError"
      let ?h = "ls_history L @ [failure_record C L w ?d]"
      let ?v = "output_violation C result firstError ?h"
      note inv = Pair [unfolded Returned]
      have final: "\<not> (ls_attempt L < maxAttempts C \<and> validation \<in> set (retryOn C))"
      proof
        assume "ls_attempt L < maxAttempts C \<and> validation \<in> set (retryOn C)"
        from attempt_body_invalid_retry [OF inv sch this, of inp] assms show False
          by simp
      qed
      note body = attempt_body_invalid_final [OF inv sch final, of inp]
      show ?thesis
      proof (cases "thrown_ParseError (handleFailure ?v inp (onFail_of C))")
        case None
        with body assms
        have "r = finish (handleFailure ?v inp (onFail_of C)) (Some ?v) (ls_calls L + 1) ?h
            (ls_published L @ [published_state C L]) w"
          by simp
        with Pair show ?thesis
          by (intro conjI exI [of _ "[failure_record C L w ?d]"]) (simp_all add: finish_def)
      next
        case (Some error)
        with body assms have c: "catch_ParseError C inp (ls_attempt L)
            (now C (ls_world L)) ?h (ls_calls L + 1)
            (ls_published L @ [published_state C L]) (Some ?v) error w = Inr r"
          by simp
        from Some have nq: "\<not> quiet_policy C"
          using thrown_ParseError_quiet [of C ?v inp] by auto
        from Some have res: "handleFailure ?v inp (onFail_of C) = Inl (ParseErrorThrown error)"
          by (simp add: thrown_ParseError_Some)
        from catch_ParseError_Inr [OF c] Pair nq res show ?thesis
          by (intro conjI exI [of _ "[failure_record C L w ?d,
                failure_record C L w (parse_diagnostic error)]"]) auto
      qed
    qed
  next
    case (ThrewParseError err)
    from attempt_body_ParseError [OF Pair [unfolded ThrewParseError], of inp] assms
    have c: "catch_ParseError C inp (ls_attempt L) (now C (ls_world L)) (ls_history L)
       (ls_calls L + 1) (ls_published L @ [published_state C L]) None err w = Inr r"
      by simp
    from catch_ParseError_Inr [OF c] Pair show ?thesis
      by (intro conjI exI [of _ "[failure_record C L w (parse_diagnostic err)]"]) auto
  next
    case (Threw e)
    with Pair assms have "r = finish (Inl (OtherThrown e)) None (ls_calls L + 1) (ls_history L)
            (ls_published L @ [published_state C L]) w"
      by (simp add: attempt_body_Threw)
    with Pair show ?thesis
      by (intro conjI exI [of _ "[]"]) (simp_all add: finish_def)
  qed
qed

lemma state_consistent_published [simp]: "state_consistent (published_state C L)"
  by (simp add: state_consistent_def published_state_def attempt_state_def)

section \<open>Properties of the loop\<close>

lemma guarded_passes:
  "passes_input C args \<Longrightarrow>
   guarded C args w0 = attempt_loop C args (resolveInputData args (inputParam C)) (first_state w0)"
  by (simp add: guarded_def passes_input_def first_state_def Let_def)

lemma attempt_loop_continue:
  "ls_attempt L \<le> maxAttempts C \<Longrightarrow> attempt_body C args inp L = Inl L'
   \<Longrightarrow> attempt_loop C args inp L = attempt_loop C args inp (L'\<lparr>ls_attempt := ls_attempt L + 1\<rparr>)"
  by (subst attempt_loop.simps) simp

lemma attempt_loop_done:
  "ls_attempt L \<le> maxAttempts C \<Longrightarrow> attempt_body C args inp L = Inr r
   \<Longrightarrow> attempt_loop C args inp L = r"
  by (subst attempt_loop.simps) simp

lemma guarded_reached:
  "reached C args w0 L \<Longrightarrow>
   guarded C args w0 = attempt_loop C args (resolveInputData args (inputParam C)) L"
  by (induction rule: reached.induct) (simp_all add: guarded_passes attempt_loop_continue)

lemma remdups_adj_attempts:
  assumes "remdups_adj xs = [1..a - 1]" and "recs \<noteq> []" and "\<forall>x\<in>set recs. x = a"
    and "1 \<le> (a::int)"
  shows "remdups_adj (xs @ recs) = [1..a]"
proof -
  from assms(2,3) have r: "recs = replicate (length recs) a" and n: "0 < length recs"
    by (simp_all add: replicate_length_same)
  from n have ra: "remdups_adj recs = [a]"
    by (subst r) (simp add: remdups_adj_replicate)
  have "set xs = set [1..a - 1]"
    using assms(1) remdups_adj_set [of xs] by simp
  then have "xs = [] \<or> last xs \<noteq> a"
    using last_in_set [of xs] by auto
  then have "remdups_adj (xs @ recs) = remdups_adj xs @ remdups_adj recs"
    using assms(2,3) by (intro remdups_adj_append') (auto simp add: hd_in_set)
  then show ?thesis
    using assms(1,4) ra by (simp add: upto_rec2 [of 1 a])
qed

lemma reached_inv:
  "reached C args w0 L \<Longrightarrow>
     1 \<le> ls_attempt L \<and> ls_calls L = nat (ls_attempt L - 1)
     \<and> nat (ls_attempt L - 1) \<le> length (ls_history L)
     \<and> remdups_adj (map ar_attempt (ls_history L)) = [1..ls_attempt L - 1]
     \<and> (quiet_policy C \<longrightarrow> map ar_attempt (ls_history L) = [1..ls_attempt L - 1])"
proof (induction rule: reached.induct)
  case first
  then show ?case by (simp add: first_state_def)
next
  case (continue L L')
  from attempt_body_Inl [OF continue.hyps(3)] obtain recs where
    c: "ls_calls L' = ls_calls L + 1" and h: "ls_history L' = ls_history L @ recs"
    and n: "recs \<noteq> []" and a: "\<forall>rec\<in>set recs. ar_attempt rec = ls_attempt L"
    and q: "quiet_policy C \<longrightarrow> length recs = 1"
    by blast
  from n have l: "1 \<le> length recs"
    by (cases recs) simp_all
  have "map ar_attempt (ls_history L') = [1..ls_attempt L]" if "quiet_policy C"
  proof -
    from q that obtain rec where "recs = [rec]"
      by (cases recs) auto
    with a h continue.IH that show ?thesis
      by (simp add: upto_rec2 [of 1 "ls_attempt L"])
  qed
  moreover from continue.IH have "nat (ls_attempt L) = nat (ls_attempt L - 1) + 1"
    by arith
  moreover have "remdups_adj (map ar_attempt (ls_history L')) = [1..ls_attempt L]"
    unfolding h map_append
    using continue.IH n a by (intro remdups_adj_attempts) simp_all
  ultimately show ?case
    using continue.IH c h l by simp
qed

lemma loop_violation:
  "r_violation (attempt_loop C args inp L) = Some v
   \<Longrightarrow> r_result (attempt_loop C args inp L) = handleFailure v inp (onFail_of C)"
proof (induction C args inp L rule: attempt_loop.induct)
  case (1 C args inp L)
  show ?case
  proof (cases "ls_attempt L \<le> maxAttempts C")
    case False
    with "1.prems" show ?thesis
      by (subst (asm) attempt_loop.simps) (simp add: finish_def)
  next
    case True
    show ?thesis
    proof (cases "attempt_body C args inp L")
      case (Inl L')
      with True "1.IH" "1.prems" show ?thesis
        by (simp add: attempt_loop_continue)
    next
      case (Inr r)
      with True "1.prems" attempt_body_Inr [OF Inr] show ?thesis
        by (simp add: attempt_loop_done)
    qed
  qed
qed

lemma loop_violation_history:
  "quiet_policy C \<Longrightarrow> r_violation (attempt_loop C args inp L) = Some v
   \<Longrightarrow> hv_history v = r_history (attempt_loop C args inp L)"
proof (induction C args inp L rule: attempt_loop.induct)
  case (1 C args inp L)
  show ?case
  proof (cases "ls_attempt L \<le> maxAttempts C")
    case False
    with "1.prems"(2) show ?thesis
      by (subst (asm) attempt_loop.simps) (simp add: finish_def)
  next
    case True
    show ?thesis
    proof (cases "attempt_body C args inp L")
      case (Inl L')
      with True "1.IH" "1.prems" show ?thesis
        by (simp add: attempt_loop_continue)
    next
      case (Inr r)
      with True "1.prems" attempt_body_Inr [OF Inr] show ?thesis
        by (simp add: attempt_loop_done)
    qed
  qed
qed

lemma loop_published:
  "\<forall>s\<in>set (ls_published L). state_consistent s
   \<Longrightarrow> \<forall>s\<in>set (r_published (attempt_loop C args inp L)). state_consistent s"
proof (induction C args inp L rule: attempt_loop.induct)
  case (1 C args inp L)
  show ?case
  proof (cases "ls_attempt L \<le> maxAttempts C")
    case False
    with "1.prems" show ?thesis
      by (subst attempt_loop.simps) (simp add: finish_def)
  next
    case True
    show ?thesis
    proof (cases "attempt_body C args inp L")
      case (Inl L')
      with True "1.IH" [OF True Inl] "1.prems" attempt_body_Inl [OF Inl] show ?thesis
        by (simp add: attempt_loop_continue)
    next
      case (Inr r)
      with True "1.prems" attempt_body_Inr [OF Inr] show ?thesis
        by (simp add: attempt_loop_done)
    qed
  qed
qed

lemma loop_bounded:
  "\<forall>rec\<in>set (ls_history L). bounded_record rec
   \<Longrightarrow> \<forall>rec\<in>set (r_history (attempt_loop C args inp L)). bounded_record rec"
proof (induction C args inp L rule: attempt_loop.induct)
  case (1 C args inp L)
  show ?case
  proof (cases "ls_attempt L \<le> maxAttempts C")
    case False
    with "1.prems" show ?thesis
      by (subst attempt_loop.simps) (simp add: finish_def)
  next
    case True
    show ?thesis
    proof (cases "attempt_body C args inp L")
      case (Inl L')
      from attempt_body_Inl [OF Inl] "1.prems"
      have "\<forall>rec\<in>set (ls_history (L'\<lparr>ls_attempt := ls_attempt L + 1\<rparr>)). bounded_record rec"
        by auto
      with True "1.IH" [OF True Inl] Inl show ?thesis
        by (simp add: attempt_loop_continue)
    next
      case (Inr r)
      from attempt_body_Inr [OF Inr] "1.prems"
      have "\<forall>rec\<in>set (r_history r). bounded_record rec"
        by auto
      with True Inr show ?thesis
        by (simp add: attempt_loop_done)
    qed
  qed
qed

lemma loop_history_grows:
  "\<exists>ys. r_history (attempt_loop C args inp L) = ls_history L @ ys"
proof (induction C args inp L rule: attempt_loop.induct)
  case (1 C args inp L)
  show ?case
  proof (cases "ls_attempt L \<le> maxAttempts C")
    case False
    then show ?thesis
      by (subst attempt_loop.simps) (simp add: finish_def)
  next
    case True
    show ?thesis
    proof (cases "attempt_body C args inp L")
      case (Inl L')
      from attempt_body_Inl [OF Inl] obtain recs where
        "ls_history L' = ls_history L @ recs" by blast
      with True "1.IH" [OF True Inl] Inl show ?thesis
        by (auto simp add: attempt_loop_continue)
    next
      case (Inr r)
      with True attempt_body_Inr [OF Inr] show ?thesis
        by (auto simp add: attempt_loop_done)
    qed
  qed
qed

lemma reached_history_kept:
  "reached C args w0 L \<Longrightarrow> \<exists>ys. r_history (guarded C args w0) = ls_history L @ ys"
  by (simp add: guarded_reached loop_history_grows)

lemma guarded_violation:
  assumes "r_violation (guarded C args w0) = Some v"
  shows "r_result (guarded C args w0) =
           handleFailure v (resolveInputData args (inputParam C)) (onFail_of C)"
proof (cases "passes_input C args")
  case True
  with assms show ?thesis
    by (simp add: guarded_passes loop_violation)
next
  case False
  with assms show ?thesis
    by (auto simp add: guarded_def passes_input_def Let_def finish_def split: option.splits)
qed

lemma guarded_bounded: "\<forall>rec\<in>set (r_history (guarded C args w0)). bounded_record rec"
proof (cases "passes_input C args")
  case True
  then show ?thesis
    using loop_bounded [of "first_state w0" C args "resolveInputData args (inputParam C)"]
    by (simp add: guarded_passes first_state_def)
next
  case False
  then show ?thesis
    by (auto simp add: guarded_def passes_input_def Let_def finish_def split: option.splits)
qed

lemma guarded_published: "\<forall>s\<in>set (r_published (guarded C args w0)). state_consistent s"
proof (cases "passes_input C args")
  case True
  then show ?thesis
    using loop_published [of "first_state w0" C args "resolveInputData args (inputParam C)"]
    by (simp add: guarded_passes first_state_def)
next
  case False
  then show ?thesis
    by (auto simp add: guarded_def passes_input_def Let_def finish_def split: option.splits)
qed

lemma attempts_numbered:
  assumes "map ar_attempt h = [1..n]"
  shows "length h = nat n \<and> (\<forall>i < length h. ar_attempt (h ! i) = int i + 1)"
proof -
  have len: "length h = nat n"
  proof -
    have "length h = length (map ar_attempt h)" by simp
    also have "\<dots> = nat n" unfolding assms by simp
    finally show ?thesis .
  qed
  have "ar_attempt (h ! i) = int i + 1" if "i < length h" for i
  proof -
    have "ar_attempt (h ! i) = map ar_attempt h ! i"
      using that by simp
    also have "\<dots> = 1 + int i"
      unfolding assms using that len by (intro nth_upto) simp
    finally show ?thesis by simp
  qed
  with len show ?thesis by simp
qed

lemma invoke_counted:
  assumes "fn_of C = counted f"
    and "f (Some (published_state C L)) (buildCallArgs args (published_state C L))
           (fst (ls_world L)) = (out, w')"
  shows "invoke C args L = (out, (w', Suc (snd (ls_world L))))"
  using assms by (simp add: invoke_def counted_def)

lemma rs_attempt_published [simp]: "rs_attempt (published_state C L) = ls_attempt L"
  by (simp add: published_state_def attempt_state_def)

lemma exhaust_final:
  assumes inv: "invoke C args L = (Returned result, (w', Suc (snd (ls_world L))))"
    and sch: "outputSchema C = Some sch" "sch result = Some firstError"
    and last: "ls_attempt L = maxAttempts C" and pos: "1 \<le> ls_attempt L"
    and hist: "map ar_attempt (ls_history L) = [1..ls_attempt L - 1]"
    and calls: "ls_calls L = nat (ls_attempt L - 1)"
    and count: "snd (ls_world L) = n0 + nat (ls_attempt L - 1)"
    and pub: "map rs_attempt (ls_published L) = [1..ls_attempt L - 1]"
  shows "exhausted C inp n0 (attempt_loop C args inp L)"
proof -
  let ?w = "(w', Suc (snd (ls_world L)))"
  let ?d = "validation_diagnostic C result firstError"
  let ?h = "ls_history L @ [failure_record C L ?w ?d]"
  let ?p = "ls_published L @ [published_state C L]"
  let ?v = "output_violation C result firstError ?h"
  let ?res = "handleFailure ?v inp (onFail_of C)"
  have le: "ls_attempt L \<le> maxAttempts C"
    using last by simp
  have final: "\<not> (ls_attempt L < maxAttempts C \<and> validation \<in> set (retryOn C))"
    using last by simp
  note body = attempt_body_invalid_final [OF inv sch final, of inp]
  have h: "map ar_attempt ?h = [1..maxAttempts C]"
    using hist pos last by (simp add: upto_rec2 [of 1 "maxAttempts C"])
  have p: "map rs_attempt ?p = [1..maxAttempts C]"
    using pub pos last by (simp add: upto_rec2 [of 1 "maxAttempts C"])
  have c: "ls_calls L + 1 = nat (maxAttempts C)"
    using calls pos last by (simp add: nat_diff_distrib)
  have n: "Suc (snd (ls_world L)) = n0 + nat (maxAttempts C)"
    using count pos last by (simp add: nat_diff_distrib)
  show ?thesis
  proof (cases "thrown_ParseError ?res")
    case None
    with body have "attempt_body C args inp L = Inr (finish ?res (Some ?v) (ls_calls L + 1) ?h ?p ?w)"
      by simp
    from attempt_loop_done [OF le this]
    have r: "attempt_loop C args inp L = finish ?res (Some ?v) (ls_calls L + 1) ?h ?p ?w" .
    from None have no: "?res \<noteq> Inl (ParseErrorThrown error)" for error
      using thrown_ParseError_Some [of ?res error] by simp
    show ?thesis
      unfolding exhausted_def r
      using h p c n no by (intro conjI exI [of _ ?v]) (simp_all add: finish_def)
  next
    case (Some error)
    then have res: "?res = Inl (ParseErrorThrown error)"
      by (simp add: thrown_ParseError_Some)
    let ?h2 = "?h @ [failure_record C L ?w (parse_diagnostic error)]"
    let ?v2 = "parse_violation C error ?h2"
    have h2: "map ar_attempt ?h2 = [1..maxAttempts C] @ [maxAttempts C]"
      using h last by simp
    from Some body have b: "attempt_body C args inp L =
        catch_ParseError C inp (ls_attempt L) (now C (ls_world L)) ?h (ls_calls L + 1) ?p
          (Some ?v) error ?w"
      by simp
    show ?thesis
    proof (cases "maxAttempts C = 1 \<or> parse \<notin> set (retryOn C)")
      case True
      from b have "attempt_body C args inp L =
          Inr (finish (Inl (ParseErrorThrown error)) (Some ?v) (ls_calls L + 1) ?h2 ?p ?w)"
        unfolding catch_ParseError_unfold Let_def using True last by auto
      from attempt_loop_done [OF le this]
      have r: "attempt_loop C args inp L =
          finish (Inl (ParseErrorThrown error)) (Some ?v) (ls_calls L + 1) ?h2 ?p ?w" .
      show ?thesis
        unfolding exhausted_def r
        using h h2 p c n res True by (intro conjI exI [of _ ?v]) (auto simp add: finish_def)
    next
      case False
      from b have "attempt_body C args inp L =
          Inr (finish (handleFailure ?v2 inp (onFail_of C)) (Some ?v2) (ls_calls L + 1) ?h2 ?p ?w)"
        unfolding catch_ParseError_unfold Let_def using False last by auto
      from attempt_loop_done [OF le this]
      have r: "attempt_loop C args inp L =
          finish (handleFailure ?v2 inp (onFail_of C)) (Some ?v2) (ls_calls L + 1) ?h2 ?p ?w" .
      show ?thesis
        unfolding exhausted_def r
        using h h2 p c n res False by (intro conjI exI [of _ ?v]) (auto simp add: finish_def)
    qed
  qed
qed

lemma exhaust_loop:
  "outputSchema C = Some sch \<Longrightarrow> fn_of C = counted f
   \<Longrightarrow> \<forall>store cargs w. \<exists>v w'. f store cargs w = (Returned v, w') \<and> sch v \<noteq> None
   \<Longrightarrow> validation \<in> set (retryOn C)
   \<Longrightarrow> 1 \<le> ls_attempt L \<Longrightarrow> ls_attempt L \<le> maxAttempts C
   \<Longrightarrow> map ar_attempt (ls_history L) = [1..ls_attempt L - 1]
   \<Longrightarrow> ls_calls L = nat (ls_attempt L - 1)
   \<Longrightarrow> snd (ls_world L) = n0 + nat (ls_attempt L - 1)
   \<Longrightarrow> map rs_attempt (ls_published L) = [1..ls_attempt L - 1]
   \<Longrightarrow> exhausted C inp n0 (attempt_loop C args inp L)"
proof (induction C args inp L rule: attempt_loop.induct)
  case (1 C args inp L)
  from "1.prems"(3) obtain result w' firstError where
    f: "f (Some (published_state C L)) (buildCallArgs args (published_state C L))
          (fst (ls_world L)) = (Returned result, w')"
    and bad: "sch result = Some firstError"
    by (metis not_Some_eq)
  let ?w = "(w', Suc (snd (ls_world L)))"
  from invoke_counted [OF "1.prems"(2) f]
  have inv: "invoke C args L = (Returned result, ?w)" .
  show ?case
  proof (cases "ls_attempt L < maxAttempts C")
    case True
    let ?d = "validation_diagnostic C result firstError"
    let ?L' = "\<lparr>ls_attempt = ls_attempt L,
                ls_history = ls_history L @ [failure_record C L ?w ?d],
                ls_lastError = Some ?d, ls_calls = ls_calls L + 1,
                ls_published = ls_published L @ [published_state C L], ls_world = ?w\<rparr>"
    have body: "attempt_body C args inp L = Inl ?L'"
      using True "1.prems"(4) by (intro attempt_body_invalid_retry [OF inv "1.prems"(1) bad]) simp
    have "exhausted C inp n0 (attempt_loop C args inp (?L'\<lparr>ls_attempt := ls_attempt L + 1\<rparr>))"
      using True "1.prems"
      by (intro "1.IH" [OF "1.prems"(6) body])
         (simp_all add: nat_diff_distrib upto_rec2 [of 1 "ls_attempt L"])
    then show ?thesis
      using "1.prems"(6) body by (simp add: attempt_loop_continue)
  next
    case False
    with "1.prems"(6) have last: "ls_attempt L = maxAttempts C" by simp
    show ?thesis
      by (rule exhaust_final [OF inv "1.prems"(1) bad last "1.prems"(5,7,8,9,10)])
  qed
qed

lemma guarded_single_ParseError:
  assumes "passes_input C args" and "maxAttempts C = 1"
    and "invoke C args (first_state w0) = (ThrewParseError err, w)"
  shows "guarded C args w0 =
     finish (Inl (ParseErrorThrown err)) None 1
       [failure_record C (first_state w0) w (parse_diagnostic err)]
       [published_state C (first_state w0)] w"
proof -
  let ?inp = "resolveInputData args (inputParam C)"
  have "attempt_body C args ?inp (first_state w0) =
      Inr (finish (Inl (ParseErrorThrown err)) None 1
       [failure_record C (first_state w0) w (parse_diagnostic err)]
       [published_state C (first_state w0)] w)"
    unfolding attempt_body_ParseError [OF assms(3)] catch_ParseError_unfold Let_def
    using assms(2) by (simp add: first_state_def)
  moreover have "ls_attempt (first_state w0) \<le> maxAttempts C"
    using assms(2) by (simp add: first_state_def)
  ultimately show ?thesis
    using assms(1) by (simp add: guarded_passes attempt_loop_done)
qed

section \<open>The example configurations\<close>

lemma quiet_policy_named:
  "onFail_of C \<in> {raise, throw, return_none, returnNull, return_input, returnInput}
   \<Longrightarrow> quiet_policy C"
  by (auto simp add: quiet_policy_def)

lemma ex_guard_simps:
  "inputSchema ex_guard = None"
  "outputSchema ex_guard = Some reject_all"
  "maxAttempts ex_guard = 3"
  "retryOn ex_guard = [validation, parse]"
  "onFail_of ex_guard = raise"
  "inputParam ex_guard = None"
  "fn_of ex_guard = counted bad_output"
  by (simp_all add: ex_guard_def guard_def ex_options_def)

lemma slip_guard_simps:
  "inputSchema (slip_guard n) = None"
  "outputSchema (slip_guard n) = Some reject_all"
  "maxAttempts (slip_guard n) = n"
  "retryOn (slip_guard n) = [validation, parse]"
  "onFail_of (slip_guard n) = parse_throwing_policy"
  "inputParam (slip_guard n) = None"
  "fn_of (slip_guard n) = counted bad_output"
  by (simp_all add: slip_guard_def guard_def slip_options_def)

lemma parse_throwing_policy_throws:
  "handleFailure v inp parse_throwing_policy = Inl (ParseErrorThrown ex_error)"
  by (simp add: parse_throwing_policy_def)

lemma bad_output_rejected:
  "\<forall>store cargs w. \<exists>v w'. bad_output store cargs w = (Returned v, w') \<and> reject_all v \<noteq> None"
  by (simp add: bad_output_def reject_all_def)

lemma return_input_guard_simps:
  "inputSchema (return_input_guard p) = None"
  "outputSchema (return_input_guard p) = Some reject_all"
  "maxAttempts (return_input_guard p) = 1"
  "retryOn (return_input_guard p) = [validation, parse]"
  "onFail_of (return_input_guard p) = return_input"
  "inputParam (return_input_guard p) = p"
  "fn_of (return_input_guard p) = bad_output"
  by (simp_all add: return_input_guard_def guard_def return_input_options_def)

lemma return_input_guard_violation:
  "\<exists>v. r_violation (guarded (return_input_guard p) args ()) = Some v"
proof -
  let ?C = "return_input_guard p"
  let ?inp = "resolveInputData args (inputParam ?C)"
  let ?L = "first_state ()"
  have passes: "passes_input ?C args"
    by (simp add: passes_input_def return_input_guard_simps)
  have inv: "invoke ?C args ?L = (Returned ex_result, ())"
    by (simp add: invoke_def return_input_guard_simps bad_output_def)
  have final: "\<not> (ls_attempt ?L < maxAttempts ?C \<and> validation \<in> set (retryOn ?C))"
    by (simp add: first_state_def return_input_guard_simps)
  have q: "thrown_ParseError (handleFailure v ?inp (onFail_of ?C)) = None" for v
    by (simp add: return_input_guard_simps)
  have le: "ls_attempt ?L \<le> maxAttempts ?C"
    by (simp add: first_state_def return_input_guard_simps)
  have "outputSchema ?C = Some reject_all" "reject_all ex_result = Some ex_issue"
    by (simp_all add: return_input_guard_simps reject_all_def)
  from attempt_body_invalid_final [OF inv this final, of ?inp]
  have "\<exists>r. attempt_body ?C args ?inp ?L = Inr r \<and> r_violation r \<noteq> None"
    unfolding q by (simp add: finish_def)
  then obtain r where "attempt_body ?C args ?inp ?L = Inr r" and "r_violation r \<noteq> None"
    by blast
  with attempt_loop_done [OF le] passes show ?thesis
    by (auto simp add: guarded_passes)
qed

lemma resolve_examples:
  "resolveInputData [ex_wrapped] (Some (js ''state'')) = ex_input"
  "resolveInputData [ex_record] (Some (js ''state'')) = ex_input"
  "resolveInputData [ex_wrapped] None = ex_wrapped"
  "resolveInputData [ex_wrapped] (Some (js ''constructor'')) = JBuiltin (js ''constructor'')"
  "resolveInputData [ex_wrapped] (Some (js ''missing'')) = ex_wrapped"
  "resolveInputData [] (Some (js ''state'')) = JUndefined"
  "resolveInputData [JStr (js ''text'')] (Some (js ''state'')) = JStr (js ''text'')"
  by (simp_all add: resolveInputData_def ex_wrapped_def ex_record_def js_def inherited_def
        prototype_functions_def)

lemma slip_continue_guard_simps:
  "inputSchema slip_continue_guard = None"
  "outputSchema slip_continue_guard = Some reject_all"
  "maxAttempts slip_continue_guard = 2"
  "retryOn slip_continue_guard = [parse]"
  "onFail_of slip_continue_guard = parse_throwing_policy"
  "inputParam slip_continue_guard = None"
  "fn_of slip_continue_guard = invalid_then_throws"
  "now slip_continue_guard = (\<lambda>w. 0)"
  by (simp_all add: slip_continue_guard_def guard_def slip_continue_options_def)

text \<open>
  The second attempt of a call of \<open>slip_continue_guard\<close>: the first attempt has left two
  records, one for the failed validation and one for the \<open>ParseError\<close> of the policy.
\<close>

lemma reached_second_slip_continue:
  "\<exists>L. reached slip_continue_guard ex_args () L \<and> ls_attempt L = 2
     \<and> map ar_attempt (ls_history L) = [1, 1]"
proof -
  let ?C = "slip_continue_guard"
  let ?L = "first_state ()"
  let ?inp = "resolveInputData ex_args (inputParam ?C)"
  have first: "reached ?C ex_args () ?L"
    by (rule reached.first) (simp add: passes_input_def slip_continue_guard_simps)
  have inv: "invoke ?C ex_args ?L = (Returned ex_result, ())"
    by (simp add: invoke_def slip_continue_guard_simps invalid_then_throws_def retry_def
          published_state_def attempt_state_def first_state_def)
  have final: "\<not> (ls_attempt ?L < maxAttempts ?C \<and> validation \<in> set (retryOn ?C))"
    by (simp add: slip_continue_guard_simps)
  have sch: "outputSchema ?C = Some reject_all" "reject_all ex_result = Some ex_issue"
    by (simp_all add: slip_continue_guard_simps reject_all_def)
  have t: "thrown_ParseError (handleFailure v ?inp (onFail_of ?C)) = Some ex_error" for v
    by (simp add: slip_continue_guard_simps parse_throwing_policy_throws)
  have retry: "ls_attempt ?L < maxAttempts ?C \<and> parse \<in> set (retryOn ?C)"
    by (simp add: slip_continue_guard_simps first_state_def)
  have "\<exists>L'. attempt_body ?C ex_args ?inp ?L = Inl L' \<and> map ar_attempt (ls_history L') = [1, 1]"
    unfolding attempt_body_invalid_final [OF inv sch final] t option.case
      catch_ParseError_unfold Let_def if_P [OF retry]
    by (simp add: first_state_def)
  then obtain L' where body: "attempt_body ?C ex_args ?inp ?L = Inl L'"
    and h: "map ar_attempt (ls_history L') = [1, 1]"
    by (elim exE conjE)
  have "reached ?C ex_args () (L'\<lparr>ls_attempt := ls_attempt ?L + 1\<rparr>)"
    by (rule reached.continue [OF first _ body]) (simp add: slip_continue_guard_simps first_state_def)
  with h show ?thesis
    by (intro exI [of _ "L'\<lparr>ls_attempt := ls_attempt ?L + 1\<rparr>"]) (simp add: first_state_def)
qed

lemma parse_guard_simps:
  "inputSchema (parse_guard n kinds) = None"
  "outputSchema (parse_guard n kinds) = Some reject_all"
  "maxAttempts (parse_guard n kinds) = n"
  "retryOn (parse_guard n kinds) = kinds"
  "onFail_of (parse_guard n kinds) = raise"
  "inputParam (parse_guard n kinds) = None"
  "fn_of (parse_guard n kinds) = parse_fails"
  "now (parse_guard n kinds) = (\<lambda>w. 0)"
  by (simp_all add: parse_guard_def guard_def throwing_options_def)

lemma error_guard_simps:
  "inputSchema error_guard = None"
  "maxAttempts error_guard = 3"
  "fn_of error_guard = throws_error"
  "inputParam error_guard = None"
  "onFail_of error_guard = raise"
  by (simp_all add: error_guard_def guard_def throwing_options_def)

lemma invoke_parse_guard:
  "invoke (parse_guard n kinds) args L = (ThrewParseError ex_error, ls_world L)"
  by (simp add: invoke_def parse_guard_simps parse_fails_def ex_error_def)

lemma reached_first_parse_guard: "reached (parse_guard n kinds) ex_args () (first_state ())"
  by (rule reached.first) (simp add: passes_input_def parse_guard_simps)

section \<open>The claims\<close>

subsection \<open>Exhaustion\<close>

text \<open>
  Claim C1 holds unless the failure policy throws a \<open>ParseError\<close>.  Take a guard with
  \<open>maxAttempts = N\<close>, \<open>N \<ge> 1\<close>, with \<open>validation\<close> among the retried kinds, and a
  wrapped function that counts its invocations and on every invocation returns a value
  that the output schema rejects.  A call that gets past the input check invokes the
  wrapped function exactly \<open>N\<close> times, publishing the attempts \<open>1, \<dots>, N\<close>, and hands
  to the failure policy a violation \<open>v\<close> of the output contract whose history has \<open>N\<close>
  entries, the entry at index \<open>i\<close> carrying the attempt number \<open>i + 1\<close>.  If the policy
  does not throw a \<open>ParseError\<close> on \<open>v\<close>, the call ends there: \<open>v\<close> is the terminal
  violation, its history is the history of the call, and the result of the call is what
  the policy gives.  If the policy throws a \<open>ParseError\<close> on \<open>v\<close>, the call of
  \<open>handleFailure\<close> being inside the \<open>try\<close> block, the error is caught as if the wrapped
  function had thrown it and a second record is pushed for attempt \<open>N\<close>: the history of
  the call has \<open>N + 1\<close> entries; then, with \<open>N = 1\<close> or \<open>parse\<close> not retried, the call
  throws the error, and otherwise the policy is applied once more, to a terminal
  violation whose history has \<open>N + 1\<close> entries, the last two for attempt \<open>N\<close>.
\<close>

theorem exhaustion:
  assumes "passes_input C args" and "outputSchema C = Some sch"
    and "fn_of C = counted f"
    and "\<forall>store cargs w. \<exists>v w'. f store cargs w = (Returned v, w') \<and> sch v \<noteq> None"
    and "validation \<in> set (retryOn C)" and "1 \<le> maxAttempts C"
  shows "snd (r_world (guarded C args (w0, n0))) = n0 + nat (maxAttempts C)
    \<and> r_calls (guarded C args (w0, n0)) = nat (maxAttempts C)
    \<and> map rs_attempt (r_published (guarded C args (w0, n0))) = [1..maxAttempts C]
    \<and> (\<exists>v. length (hv_history v) = nat (maxAttempts C)
         \<and> (\<forall>i < length (hv_history v). ar_attempt (hv_history v ! i) = int i + 1)
         \<and> vc_contractType (hv_context v) = OutputContract
         \<and> ((\<forall>error. handleFailure v (resolveInputData args (inputParam C)) (onFail_of C)
                  \<noteq> Inl (ParseErrorThrown error)) \<longrightarrow>
               r_violation (guarded C args (w0, n0)) = Some v
               \<and> r_history (guarded C args (w0, n0)) = hv_history v
               \<and> r_result (guarded C args (w0, n0)) =
                   handleFailure v (resolveInputData args (inputParam C)) (onFail_of C))
         \<and> (\<forall>error. handleFailure v (resolveInputData args (inputParam C)) (onFail_of C)
                  = Inl (ParseErrorThrown error) \<longrightarrow>
               length (r_history (guarded C args (w0, n0))) = nat (maxAttempts C) + 1
               \<and> map ar_attempt (r_history (guarded C args (w0, n0)))
                   = [1..maxAttempts C] @ [maxAttempts C]
               \<and> (maxAttempts C = 1 \<or> parse \<notin> set (retryOn C) \<longrightarrow>
                    r_violation (guarded C args (w0, n0)) = Some v
                    \<and> r_result (guarded C args (w0, n0)) = Inl (ParseErrorThrown error))
               \<and> (1 < maxAttempts C \<and> parse \<in> set (retryOn C) \<longrightarrow>
                    (\<exists>v2. r_violation (guarded C args (w0, n0)) = Some v2
                       \<and> hv_history v2 = r_history (guarded C args (w0, n0))
                       \<and> length (hv_history v2) = nat (maxAttempts C) + 1
                       \<and> vc_contractType (hv_context v2) = OutputContract
                       \<and> r_result (guarded C args (w0, n0)) =
                           handleFailure v2 (resolveInputData args (inputParam C))
                             (onFail_of C)))))"
proof -
  let ?inp = "resolveInputData args (inputParam C)"
  let ?r = "attempt_loop C args ?inp (first_state (w0, n0))"
  have g: "guarded C args (w0, n0) = ?r"
    using assms(1) by (rule guarded_passes)
  have e: "exhausted C ?inp n0 ?r"
    using assms(2-6) by (intro exhaust_loop [where sch = sch and f = f]) (simp_all add: first_state_def)
  then obtain v where m: "map ar_attempt (hv_history v) = [1..maxAttempts C]"
    and c: "vc_contractType (hv_context v) = OutputContract"
    and quiet: "(\<forall>error. handleFailure v ?inp (onFail_of C) \<noteq> Inl (ParseErrorThrown error)) \<longrightarrow>
        r_violation ?r = Some v \<and> r_history ?r = hv_history v
        \<and> r_result ?r = handleFailure v ?inp (onFail_of C)"
    and slip: "\<forall>error. handleFailure v ?inp (onFail_of C) = Inl (ParseErrorThrown error) \<longrightarrow>
        map ar_attempt (r_history ?r) = [1..maxAttempts C] @ [maxAttempts C]
        \<and> (maxAttempts C = 1 \<or> parse \<notin> set (retryOn C) \<longrightarrow>
             r_violation ?r = Some v \<and> r_result ?r = Inl (ParseErrorThrown error))
        \<and> (1 < maxAttempts C \<and> parse \<in> set (retryOn C) \<longrightarrow>
             (\<exists>v2. r_violation ?r = Some v2 \<and> hv_history v2 = r_history ?r
                \<and> vc_contractType (hv_context v2) = OutputContract
                \<and> r_result ?r = handleFailure v2 ?inp (onFail_of C)))"
    unfolding exhausted_def by blast
  note n = attempts_numbered [OF m]
  have len: "length h = nat (maxAttempts C) + 1"
    if "map ar_attempt h = [1..maxAttempts C] @ [maxAttempts C]" for h :: "AttemptRecord list"
  proof -
    have "length h = length (map ar_attempt h)" by simp
    also have "\<dots> = nat (maxAttempts C) + 1" unfolding that using assms(6) by simp
    finally show ?thesis .
  qed
  have slip': "\<forall>error. handleFailure v ?inp (onFail_of C) = Inl (ParseErrorThrown error) \<longrightarrow>
        length (r_history ?r) = nat (maxAttempts C) + 1
        \<and> map ar_attempt (r_history ?r) = [1..maxAttempts C] @ [maxAttempts C]
        \<and> (maxAttempts C = 1 \<or> parse \<notin> set (retryOn C) \<longrightarrow>
             r_violation ?r = Some v \<and> r_result ?r = Inl (ParseErrorThrown error))
        \<and> (1 < maxAttempts C \<and> parse \<in> set (retryOn C) \<longrightarrow>
             (\<exists>v2. r_violation ?r = Some v2 \<and> hv_history v2 = r_history ?r
                \<and> length (hv_history v2) = nat (maxAttempts C) + 1
                \<and> vc_contractType (hv_context v2) = OutputContract
                \<and> r_result ?r = handleFailure v2 ?inp (onFail_of C)))"
  proof (intro allI impI)
    fix error
    assume t: "handleFailure v ?inp (onFail_of C) = Inl (ParseErrorThrown error)"
    with slip have h: "map ar_attempt (r_history ?r) = [1..maxAttempts C] @ [maxAttempts C]"
      and a: "maxAttempts C = 1 \<or> parse \<notin> set (retryOn C) \<longrightarrow>
             r_violation ?r = Some v \<and> r_result ?r = Inl (ParseErrorThrown error)"
      and b: "1 < maxAttempts C \<and> parse \<in> set (retryOn C) \<longrightarrow>
             (\<exists>v2. r_violation ?r = Some v2 \<and> hv_history v2 = r_history ?r
                \<and> vc_contractType (hv_context v2) = OutputContract
                \<and> r_result ?r = handleFailure v2 ?inp (onFail_of C))"
      by blast+
    from b len [OF h] have b': "1 < maxAttempts C \<and> parse \<in> set (retryOn C) \<longrightarrow>
             (\<exists>v2. r_violation ?r = Some v2 \<and> hv_history v2 = r_history ?r
                \<and> length (hv_history v2) = nat (maxAttempts C) + 1
                \<and> vc_contractType (hv_context v2) = OutputContract
                \<and> r_result ?r = handleFailure v2 ?inp (onFail_of C))"
      by auto
    from len [OF h] h a b' show "length (r_history ?r) = nat (maxAttempts C) + 1
        \<and> map ar_attempt (r_history ?r) = [1..maxAttempts C] @ [maxAttempts C]
        \<and> (maxAttempts C = 1 \<or> parse \<notin> set (retryOn C) \<longrightarrow>
             r_violation ?r = Some v \<and> r_result ?r = Inl (ParseErrorThrown error))
        \<and> (1 < maxAttempts C \<and> parse \<in> set (retryOn C) \<longrightarrow>
             (\<exists>v2. r_violation ?r = Some v2 \<and> hv_history v2 = r_history ?r
                \<and> length (hv_history v2) = nat (maxAttempts C) + 1
                \<and> vc_contractType (hv_context v2) = OutputContract
                \<and> r_result ?r = handleFailure v2 ?inp (onFail_of C)))"
      by blast
  qed
  from e have w: "snd (r_world ?r) = n0 + nat (maxAttempts C)"
    and k: "r_calls ?r = nat (maxAttempts C)"
    and p: "map rs_attempt (r_published ?r) = [1..maxAttempts C]"
    unfolding exhausted_def by blast+
  show ?thesis
    unfolding g
  proof (intro conjI exI [of _ v])
    show "snd (r_world ?r) = n0 + nat (maxAttempts C)" by (rule w)
    show "r_calls ?r = nat (maxAttempts C)" by (rule k)
    show "map rs_attempt (r_published ?r) = [1..maxAttempts C]" by (rule p)
    show "length (hv_history v) = nat (maxAttempts C)" using n by simp
    show "\<forall>i < length (hv_history v). ar_attempt (hv_history v ! i) = int i + 1"
      using n by simp
    show "vc_contractType (hv_context v) = OutputContract" by (rule c)
  qed (rule quiet, rule slip')
qed

text \<open>
  The wrapped function always returns an invalid value and the policy is a function
  that throws a \<open>ParseError\<close>.  With two attempts the wrapped function runs twice, the
  history of the call has three records, the last two for attempt 2, the terminal
  violation has these three records, and the call throws the \<open>ParseError\<close>; with one
  attempt the history has two records.  With three attempts and the default policy the
  wrapped function runs three times and the call throws a violation with three records.
\<close>

theorem exhaustion_witness:
  "snd (r_world (guarded (slip_guard 2) ex_args ((), 0))) = 2
   \<and> length (r_history (guarded (slip_guard 2) ex_args ((), 0))) = 3
   \<and> map ar_attempt (r_history (guarded (slip_guard 2) ex_args ((), 0))) = [1..2] @ [2]
   \<and> (\<exists>v2. r_violation (guarded (slip_guard 2) ex_args ((), 0)) = Some v2
          \<and> length (hv_history v2) = 3)
   \<and> r_result (guarded (slip_guard 2) ex_args ((), 0)) = Inl (ParseErrorThrown ex_error)
   \<and> snd (r_world (guarded (slip_guard 1) ex_args ((), 0))) = 1
   \<and> length (r_history (guarded (slip_guard 1) ex_args ((), 0))) = 2
   \<and> r_result (guarded (slip_guard 1) ex_args ((), 0)) = Inl (ParseErrorThrown ex_error)
   \<and> snd (r_world (guarded ex_guard ex_args ((), 0))) = 3
   \<and> (\<exists>v. r_violation (guarded ex_guard ex_args ((), 0)) = Some v
          \<and> length (hv_history v) = 3
          \<and> r_history (guarded ex_guard ex_args ((), 0)) = hv_history v
          \<and> r_result (guarded ex_guard ex_args ((), 0)) = Inl (ViolationThrown v))"
proof -
  have p: "passes_input (slip_guard n) ex_args" for n
    by (simp add: passes_input_def slip_guard_simps)
  have v: "validation \<in> set (retryOn (slip_guard n))" for n
    by (simp add: slip_guard_simps)
  note two = exhaustion [OF p slip_guard_simps(2) slip_guard_simps(7) bad_output_rejected v,
      of 2 "()" 0]
  note one = exhaustion [OF p slip_guard_simps(2) slip_guard_simps(7) bad_output_rejected v,
      of 1 "()" 0]
  have p': "passes_input ex_guard ex_args"
    by (simp add: passes_input_def ex_guard_simps)
  have v': "validation \<in> set (retryOn ex_guard)"
    by (simp add: ex_guard_simps)
  note three = exhaustion [OF p' ex_guard_simps(2) ex_guard_simps(7) bad_output_rejected v',
      of "()" 0]
  from two have a: "snd (r_world (guarded (slip_guard 2) ex_args ((), 0))) = 2
   \<and> length (r_history (guarded (slip_guard 2) ex_args ((), 0))) = 3
   \<and> map ar_attempt (r_history (guarded (slip_guard 2) ex_args ((), 0))) = [1..2] @ [2]
   \<and> (\<exists>v2. r_violation (guarded (slip_guard 2) ex_args ((), 0)) = Some v2
          \<and> length (hv_history v2) = 3)
   \<and> r_result (guarded (slip_guard 2) ex_args ((), 0)) = Inl (ParseErrorThrown ex_error)"
    by (auto simp add: slip_guard_simps parse_throwing_policy_throws)
  from one have b: "snd (r_world (guarded (slip_guard 1) ex_args ((), 0))) = 1
   \<and> length (r_history (guarded (slip_guard 1) ex_args ((), 0))) = 2
   \<and> r_result (guarded (slip_guard 1) ex_args ((), 0)) = Inl (ParseErrorThrown ex_error)"
    by (auto simp add: slip_guard_simps parse_throwing_policy_throws)
  from three have c: "snd (r_world (guarded ex_guard ex_args ((), 0))) = 3
   \<and> (\<exists>v. r_violation (guarded ex_guard ex_args ((), 0)) = Some v
          \<and> length (hv_history v) = 3
          \<and> r_history (guarded ex_guard ex_args ((), 0)) = hv_history v
          \<and> r_result (guarded ex_guard ex_args ((), 0)) = Inl (ViolationThrown v))"
    by (auto simp add: ex_guard_simps)
  from a b c show ?thesis by blast
qed

subsection \<open>Input failures\<close>

text \<open>
  Claim C2.  When an input schema is configured and rejects the resolved input, the
  wrapped function is not invoked and no state is published, whatever \<open>maxAttempts\<close> is;
  the failure policy is applied at once to a violation of the input contract with an
  empty history and \<open>totalAttempts = 1\<close>.
\<close>

theorem input_failure_short_circuit:
  assumes "inputSchema C = Some sch"
    and "sch (resolveInputData args (inputParam C)) = Some firstError"
  shows "r_calls (guarded C args w0) = 0 \<and> r_published (guarded C args w0) = []
    \<and> r_world (guarded C args w0) = w0
    \<and> (\<exists>v. r_violation (guarded C args w0) = Some v
           \<and> vc_contractType (hv_context v) = InputContract
           \<and> hv_history v = [] \<and> hv_totalAttempts v = 1
           \<and> r_result (guarded C args w0) =
               handleFailure v (resolveInputData args (inputParam C)) (onFail_of C))"
  using assms
  by (simp add: guarded_def Let_def finish_def new_HandoffViolation_def)

text \<open>A guard with three attempts whose input schema rejects the argument.\<close>

theorem input_failure_short_circuit_witness:
  "maxAttempts input_guard = 3 \<and> r_calls (guarded input_guard ex_args ()) = 0
   \<and> (\<exists>v. r_violation (guarded input_guard ex_args ()) = Some v
          \<and> vc_contractType (hv_context v) = InputContract
          \<and> hv_history v = [] \<and> hv_totalAttempts v = 1
          \<and> r_result (guarded input_guard ex_args ()) = Inl (ViolationThrown v))"
proof -
  have "inputSchema input_guard = Some reject_all" "maxAttempts input_guard = 3"
    "onFail_of input_guard = raise"
    by (simp_all add: input_guard_def guard_def input_options_def)
  moreover have "reject_all (resolveInputData ex_args (inputParam input_guard)) = Some ex_issue"
    by (simp add: reject_all_def)
  ultimately show ?thesis
    using input_failure_short_circuit [of input_guard reject_all ex_args ex_issue "()"]
    by auto
qed

subsection \<open>Parse failures\<close>

text \<open>
  Claim C3.  Let the wrapped function throw a \<open>ParseError\<close> in an attempt that the call
  reaches.  If \<open>maxAttempts = 1\<close> or \<open>parse\<close> is not among the retried kinds, the call
  throws that same error, no violation is built and the failure policy is not applied in
  this attempt, and the failing invocation is the last one.  If \<open>maxAttempts > 1\<close>,
  \<open>parse\<close> is retried and the attempt is the final one, a violation of the output
  contract is built from the whole history, which is the history of the call and holds
  records for the attempts \<open>1, \<dots>, maxAttempts\<close> in this order, and the result of the
  call is the failure policy applied to it.  The history has exactly one record for each
  attempt when the policy is one that throws no \<open>ParseError\<close>; a policy that throws
  one in an earlier attempt leaves two records for that attempt.
\<close>

theorem parse_failure_disposition:
  assumes "reached C args w0 L" and "ls_attempt L \<le> maxAttempts C"
    and "invoke C args L = (ThrewParseError err, w)"
  shows "(maxAttempts C = 1 \<or> parse \<notin> set (retryOn C) \<longrightarrow>
            r_result (guarded C args w0) = Inl (ParseErrorThrown err)
            \<and> r_violation (guarded C args w0) = None
            \<and> r_calls (guarded C args w0) = nat (ls_attempt L))
       \<and> (maxAttempts C > 1 \<and> parse \<in> set (retryOn C) \<and> ls_attempt L = maxAttempts C \<longrightarrow>
            (\<exists>v. r_violation (guarded C args w0) = Some v
               \<and> hv_history v = ls_history L @ [failure_record C L w (parse_diagnostic err)]
               \<and> hv_history v = r_history (guarded C args w0)
               \<and> remdups_adj (map ar_attempt (hv_history v)) = [1..maxAttempts C]
               \<and> (quiet_policy C \<longrightarrow> map ar_attempt (hv_history v) = [1..maxAttempts C])
               \<and> vc_contractType (hv_context v) = OutputContract
               \<and> r_result (guarded C args w0) =
                    handleFailure v (resolveInputData args (inputParam C)) (onFail_of C)))"
proof -
  let ?inp = "resolveInputData args (inputParam C)"
  let ?h = "ls_history L @ [failure_record C L w (parse_diagnostic err)]"
  let ?p = "ls_published L @ [published_state C L]"
  note inv = reached_inv [OF assms(1)]
  have g: "guarded C args w0 = attempt_loop C args ?inp L"
    using assms(1) by (rule guarded_reached)
  note body = attempt_body_ParseError [OF assms(3), of ?inp]
  have raw: "r_result (guarded C args w0) = Inl (ParseErrorThrown err)
      \<and> r_violation (guarded C args w0) = None
      \<and> r_calls (guarded C args w0) = nat (ls_attempt L)"
    if "maxAttempts C = 1 \<or> parse \<notin> set (retryOn C)"
  proof -
    from that assms(2) inv
    have "\<not> (ls_attempt L < maxAttempts C \<and> parse \<in> set (retryOn C))" by auto
    with that have "attempt_body C args ?inp L =
        Inr (finish (Inl (ParseErrorThrown err)) None (ls_calls L + 1) ?h ?p w)"
      unfolding body catch_ParseError_unfold Let_def by auto
    from attempt_loop_done [OF assms(2) this] inv show ?thesis
      unfolding g by (simp add: finish_def nat_diff_distrib)
  qed
  have viol: "\<exists>v. r_violation (guarded C args w0) = Some v
               \<and> hv_history v = ?h
               \<and> hv_history v = r_history (guarded C args w0)
               \<and> remdups_adj (map ar_attempt (hv_history v)) = [1..maxAttempts C]
               \<and> (quiet_policy C \<longrightarrow> map ar_attempt (hv_history v) = [1..maxAttempts C])
               \<and> vc_contractType (hv_context v) = OutputContract
               \<and> r_result (guarded C args w0) = handleFailure v ?inp (onFail_of C)"
    if "maxAttempts C > 1 \<and> parse \<in> set (retryOn C) \<and> ls_attempt L = maxAttempts C"
  proof -
    let ?v = "parse_violation C err ?h"
    from that have "attempt_body C args ?inp L =
        Inr (finish (handleFailure ?v ?inp (onFail_of C)) (Some ?v) (ls_calls L + 1) ?h ?p w)"
      unfolding body catch_ParseError_unfold Let_def by auto
    from attempt_loop_done [OF assms(2) this]
    have r: "guarded C args w0 =
        finish (handleFailure ?v ?inp (onFail_of C)) (Some ?v) (ls_calls L + 1) ?h ?p w"
      unfolding g .
    have q: "quiet_policy C \<longrightarrow> map ar_attempt ?h = [1..maxAttempts C]"
      using inv that by (simp add: upto_rec2 [of 1 "maxAttempts C"])
    have "remdups_adj (map ar_attempt (ls_history L) @ [ls_attempt L]) = [1..ls_attempt L]"
      using inv by (intro remdups_adj_attempts) simp_all
    then have d: "remdups_adj (map ar_attempt ?h) = [1..maxAttempts C]"
      using that by simp
    show ?thesis
      unfolding r using q d by (intro exI [of _ ?v]) (simp add: finish_def)
  qed
  from raw viol show ?thesis by blast
qed

text \<open>
  A wrapped function that always throws the same \<open>ParseError\<close>, under the default
  policy: with one attempt, and with three attempts but \<open>parse\<close> not retried, the call
  throws that error after one invocation; with two attempts and \<open>parse\<close> retried, the
  second attempt is reached and the call throws a violation with two history entries.
\<close>

theorem parse_failure_disposition_witness:
  "r_result (guarded (parse_guard 1 [validation, parse]) ex_args ()) = Inl (ParseErrorThrown ex_error)
   \<and> r_result (guarded (parse_guard 3 [validation]) ex_args ()) = Inl (ParseErrorThrown ex_error)
   \<and> r_calls (guarded (parse_guard 3 [validation]) ex_args ()) = 1
   \<and> (\<exists>v. r_violation (guarded (parse_guard 2 [validation, parse]) ex_args ()) = Some v
          \<and> length (hv_history v) = 2
          \<and> map ar_attempt (hv_history v) = [1..2]
          \<and> r_result (guarded (parse_guard 2 [validation, parse]) ex_args ())
              = Inl (ViolationThrown v))"
proof -
  have a: "r_result (guarded (parse_guard 1 [validation, parse]) ex_args ())
      = Inl (ParseErrorThrown ex_error)"
    using parse_failure_disposition
      [OF reached_first_parse_guard _ invoke_parse_guard, of 1 "[validation, parse]"]
    by (simp add: parse_guard_simps first_state_def)
  have b: "r_result (guarded (parse_guard 3 [validation]) ex_args ())
      = Inl (ParseErrorThrown ex_error)
    \<and> r_calls (guarded (parse_guard 3 [validation]) ex_args ()) = 1"
    using parse_failure_disposition
      [OF reached_first_parse_guard _ invoke_parse_guard, of 3 "[validation]"]
    by (simp add: parse_guard_simps first_state_def)
  let ?C = "parse_guard 2 [validation, parse]"
  let ?inp = "resolveInputData ex_args (inputParam ?C)"
  let ?d = "parse_diagnostic ex_error"
  let ?L1 = "\<lparr>ls_attempt = 1,
       ls_history = [failure_record ?C (first_state ()) () ?d],
       ls_lastError = Some ?d, ls_calls = 1,
       ls_published = [published_state ?C (first_state ())], ls_world = ()\<rparr>"
  have i1: "invoke ?C ex_args (first_state ()) = (ThrewParseError ex_error, ())"
    by (simp add: invoke_parse_guard)
  have "attempt_body ?C ex_args ?inp (first_state ()) =
      Inl \<lparr>ls_attempt = ls_attempt (first_state ()),
        ls_history = ls_history (first_state ()) @ [failure_record ?C (first_state ()) () ?d],
        ls_lastError = Some ?d, ls_calls = ls_calls (first_state ()) + 1,
        ls_published = ls_published (first_state ()) @ [published_state ?C (first_state ())],
        ls_world = ()\<rparr>"
    unfolding attempt_body_ParseError [OF i1] catch_ParseError_unfold Let_def
    by (simp add: parse_guard_simps first_state_def)
  then have body: "attempt_body ?C ex_args ?inp (first_state ()) = Inl ?L1"
    by (simp add: first_state_def)
  have "reached ?C ex_args () (?L1\<lparr>ls_attempt := ls_attempt (first_state ()) + 1\<rparr>)"
    by (rule reached.continue [OF reached_first_parse_guard _ body])
       (simp add: parse_guard_simps first_state_def)
  then have r2: "reached ?C ex_args () (?L1\<lparr>ls_attempt := 2\<rparr>)"
    by (simp add: first_state_def)
  have q: "quiet_policy ?C"
    by (rule quiet_policy_named) (simp add: parse_guard_simps)
  have l: "length h = 2" if "map ar_attempt h = [1..2]" for h :: "AttemptRecord list"
    using attempts_numbered [OF that] by simp
  have c: "\<exists>v. r_violation (guarded ?C ex_args ()) = Some v
          \<and> length (hv_history v) = 2
          \<and> map ar_attempt (hv_history v) = [1..2]
          \<and> r_result (guarded ?C ex_args ()) = Inl (ViolationThrown v)"
    using parse_failure_disposition [OF r2 _ invoke_parse_guard] q l
    by (auto simp add: parse_guard_simps)
  from a b c show ?thesis by blast
qed

subsection \<open>The \<open>return_input\<close> policy\<close>

text \<open>
  Claim C4, as amended.  Under the policies \<open>return_input\<close> and \<open>returnInput\<close>, a call
  that ends in a violation returns the resolved input, the value that
  \<open>resolveInputData\<close> computes and that input validation is applied to.  For a call
  without arguments this is \<open>undefined\<close>.  Without an \<open>inputParam\<close>, or with the empty
  string for it, it is the first argument as the caller passed it.  With an
  \<open>inputParam\<close> \<open>p\<close> and a first argument that is a plain object, it is the value of
  the property \<open>p\<close> if the object has it as its own; if not, the member \<open>p\<close> of
  \<open>Object.prototype\<close> when \<open>p\<close> names one (the prototype itself for \<open>__proto__\<close>), as
  the test \<open>p in firstArg\<close> looks through the prototype chain; and the first argument if
  \<open>p\<close> names neither.  With a first argument that is no object, or that is \<open>null\<close> or
  an array, it is the first argument.
\<close>

theorem return_input_yields_resolved_input:
  assumes "r_violation (guarded C args w0) = Some v"
    and "onFail_of C = return_input \<or> onFail_of C = returnInput"
  shows "r_result (guarded C args w0) = Inr (resolveInputData args (inputParam C))
    \<and> (args = [] \<longrightarrow> r_result (guarded C args w0) = Inr JUndefined)
    \<and> (\<forall>a rest. args = a # rest \<and> (inputParam C = None \<or> inputParam C = Some []) \<longrightarrow>
          r_result (guarded C args w0) = Inr a)
    \<and> (\<forall>kvs rest p x. args = JObj kvs # rest \<and> inputParam C = Some p \<and> p \<noteq> []
            \<and> map_of kvs p = Some x \<longrightarrow>
          r_result (guarded C args w0) = Inr x)
    \<and> (\<forall>kvs rest p. args = JObj kvs # rest \<and> inputParam C = Some p \<and> p \<noteq> []
            \<and> map_of kvs p = None \<longrightarrow>
          r_result (guarded C args w0) =
            Inr (if p = js ''__proto__'' then JProto
                 else if p \<in> set prototype_functions then JBuiltin p
                 else JObj kvs))
    \<and> (\<forall>a rest p. args = a # rest \<and> inputParam C = Some p
            \<and> (\<forall>kvs. a \<noteq> JObj kvs) \<and> a \<noteq> JProto \<longrightarrow>
          r_result (guarded C args w0) = Inr a)"
proof -
  let ?inp = "resolveInputData args (inputParam C)"
  have r: "r_result (guarded C args w0) = Inr ?inp"
    using assms(2) guarded_violation [OF assms(1)] by auto
  have 1: "args = [] \<longrightarrow> ?inp = JUndefined"
    by (simp add: resolveInputData_def)
  have 2: "\<forall>a rest. args = a # rest \<and> (inputParam C = None \<or> inputParam C = Some []) \<longrightarrow>
      ?inp = a"
    by (auto simp add: resolveInputData_def)
  have 3: "\<forall>kvs rest p x. args = JObj kvs # rest \<and> inputParam C = Some p \<and> p \<noteq> []
      \<and> map_of kvs p = Some x \<longrightarrow> ?inp = x"
    by (auto simp add: resolveInputData_def js_def)
  have 4: "\<forall>kvs rest p. args = JObj kvs # rest \<and> inputParam C = Some p \<and> p \<noteq> []
      \<and> map_of kvs p = None \<longrightarrow>
      ?inp = (if p = js ''__proto__'' then JProto
              else if p \<in> set prototype_functions then JBuiltin p
              else JObj kvs)"
    by (auto simp add: resolveInputData_def inherited_def)
  have 5: "\<forall>a rest p. args = a # rest \<and> inputParam C = Some p
      \<and> (\<forall>kvs. a \<noteq> JObj kvs) \<and> a \<noteq> JProto \<longrightarrow> ?inp = a"
  proof (intro allI impI)
    fix a rest p
    assume h: "args = a # rest \<and> inputParam C = Some p \<and> (\<forall>kvs. a \<noteq> JObj kvs) \<and> a \<noteq> JProto"
    then have "\<not> has_key p a \<or> \<not> truthy a \<or> isArray a \<or> typeof a \<noteq> js ''object''"
      by (cases a) simp_all
    with h show "?inp = a"
      by (auto simp add: resolveInputData_def)
  qed
  from 1 2 3 4 5 show ?thesis
    unfolding r by simp
qed

text \<open>
  Calls under the policy \<open>return_input\<close>.  With the options object
  \<open>{state: {name: 'Test', value: 1}}\<close> and \<open>inputParam = 'state'\<close> the call returns the
  inner object, and so it does with an object of three properties; without an
  \<open>inputParam\<close> it returns the options object; with \<open>inputParam = 'constructor'\<close> it
  returns the function that every object inherits under that name; with the name of no
  property it returns the options object; without arguments it returns \<open>undefined\<close>; with
  a string as first argument it returns the string.
\<close>

theorem return_input_yields_resolved_input_witness:
  "r_result (guarded (return_input_guard (Some (js ''state''))) [ex_wrapped] ()) = Inr ex_input
   \<and> r_result (guarded (return_input_guard (Some (js ''state''))) [ex_record] ()) = Inr ex_input
   \<and> r_result (guarded (return_input_guard None) [ex_wrapped] ()) = Inr ex_wrapped
   \<and> r_result (guarded (return_input_guard (Some (js ''constructor''))) [ex_wrapped] ())
       = Inr (JBuiltin (js ''constructor''))
   \<and> r_result (guarded (return_input_guard (Some (js ''missing''))) [ex_wrapped] ())
       = Inr ex_wrapped
   \<and> r_result (guarded (return_input_guard (Some (js ''state''))) [] ()) = Inr JUndefined
   \<and> r_result (guarded (return_input_guard (Some (js ''state''))) [JStr (js ''text'')] ())
       = Inr (JStr (js ''text''))"
proof -
  have p: "onFail_of (return_input_guard p) = return_input
      \<or> onFail_of (return_input_guard p) = returnInput" for p
    by (simp add: return_input_guard_simps)
  note inst = return_input_yields_resolved_input [OF _ p]
  from return_input_guard_violation obtain v1 where
    "r_violation (guarded (return_input_guard (Some (js ''state''))) [ex_wrapped] ()) = Some v1" ..
  from inst [OF this]
  have 1: "r_result (guarded (return_input_guard (Some (js ''state''))) [ex_wrapped] ())
      = Inr ex_input"
    by (auto simp add: return_input_guard_simps ex_wrapped_def js_def)
  from return_input_guard_violation obtain v2 where
    "r_violation (guarded (return_input_guard (Some (js ''state''))) [ex_record] ()) = Some v2" ..
  from inst [OF this]
  have 2: "r_result (guarded (return_input_guard (Some (js ''state''))) [ex_record] ())
      = Inr ex_input"
    by (auto simp add: return_input_guard_simps ex_record_def js_def)
  from return_input_guard_violation obtain v3 where
    "r_violation (guarded (return_input_guard None) [ex_wrapped] ()) = Some v3" ..
  from inst [OF this]
  have 3: "r_result (guarded (return_input_guard None) [ex_wrapped] ()) = Inr ex_wrapped"
    by (auto simp add: return_input_guard_simps)
  from return_input_guard_violation obtain v4 where
    "r_violation (guarded (return_input_guard (Some (js ''constructor''))) [ex_wrapped] ())
       = Some v4" ..
  from inst [OF this]
  have 4: "r_result (guarded (return_input_guard (Some (js ''constructor''))) [ex_wrapped] ())
       = Inr (JBuiltin (js ''constructor''))"
    by (auto simp add: return_input_guard_simps ex_wrapped_def js_def prototype_functions_def)
  from return_input_guard_violation obtain v5 where
    "r_violation (guarded (return_input_guard (Some (js ''missing''))) [ex_wrapped] ())
       = Some v5" ..
  from inst [OF this]
  have 5: "r_result (guarded (return_input_guard (Some (js ''missing''))) [ex_wrapped] ())
       = Inr ex_wrapped"
    by (auto simp add: return_input_guard_simps ex_wrapped_def js_def prototype_functions_def)
  from return_input_guard_violation obtain v6 where
    "r_violation (guarded (return_input_guard (Some (js ''state''))) [] ()) = Some v6" ..
  from inst [OF this]
  have 6: "r_result (guarded (return_input_guard (Some (js ''state''))) [] ()) = Inr JUndefined"
    by blast
  from return_input_guard_violation obtain v7 where
    "r_violation (guarded (return_input_guard (Some (js ''state''))) [JStr (js ''text'')] ())
       = Some v7" ..
  from inst [OF this]
  have 7: "r_result (guarded (return_input_guard (Some (js ''state''))) [JStr (js ''text'')] ())
       = Inr (JStr (js ''text''))"
    by (auto simp add: return_input_guard_simps)
  from 1 2 3 4 5 6 7 show ?thesis by blast
qed

text \<open>
  Under the policy \<open>return_input\<close> with \<open>inputParam = 'state'\<close>, the call with the
  options object \<open>{state: {name: 'Test', value: 1}}\<close> ends in a violation and does not
  return its first argument: the sentence of the specification fails on the input of the
  repository's own test.
\<close>

theorem return_input_counterexample:
  "onFail_of (return_input_guard (Some (js ''state''))) = return_input
   \<and> r_violation (guarded (return_input_guard (Some (js ''state''))) [ex_wrapped] ()) \<noteq> None
   \<and> r_result (guarded (return_input_guard (Some (js ''state''))) [ex_wrapped] ())
       \<noteq> Inr ex_wrapped"
proof -
  from return_input_guard_violation obtain v where
    v: "r_violation (guarded (return_input_guard (Some (js ''state''))) [ex_wrapped] ()) = Some v" ..
  from guarded_violation [OF v]
  have "r_result (guarded (return_input_guard (Some (js ''state''))) [ex_wrapped] ())
      = Inr ex_input"
    by (simp add: return_input_guard_simps resolve_examples)
  moreover have "ex_input \<noteq> ex_wrapped"
    by (simp add: ex_input_def ex_wrapped_def js_def)
  ultimately show ?thesis using v by (simp add: return_input_guard_simps)
qed

subsection \<open>Raw output of diagnostics\<close>

text \<open>
  Claim C5.  \<open>createDiagnostic\<close> keeps the first 500 code units of the raw output it is
  given, so the field, when present, has length at most 500 whatever the length of the
  payload.  Every diagnostic in the history of a guarded call is bounded in this way,
  and the records that the history holds at any attempt are still its first records,
  unchanged, when the call ends.
\<close>

theorem diagnostic_rawOutput_bounded:
  "d_rawOutput (createDiagnostic data) = map_option (take 500) (d_rawOutput data)
   \<and> (\<forall>r. d_rawOutput (createDiagnostic data) = Some r \<longrightarrow> length r \<le> 500)
   \<and> (\<forall>rec\<in>set (r_history (guarded C args w0)). \<forall>d r.
         ar_diagnostic rec = Some d \<longrightarrow> d_rawOutput d = Some r \<longrightarrow> length r \<le> 500)
   \<and> (reached C args w0 L \<longrightarrow> (\<exists>ys. r_history (guarded C args w0) = ls_history L @ ys))"
proof (intro conjI)
  show "d_rawOutput (createDiagnostic data) = map_option (take 500) (d_rawOutput data)"
    by (rule createDiagnostic_rawOutput)
  show "\<forall>r. d_rawOutput (createDiagnostic data) = Some r \<longrightarrow> length r \<le> 500"
    by (auto simp add: createDiagnostic_rawOutput)
  show "\<forall>rec\<in>set (r_history (guarded C args w0)). \<forall>d r.
         ar_diagnostic rec = Some d \<longrightarrow> d_rawOutput d = Some r \<longrightarrow> length r \<le> 500"
    using guarded_bounded [of C args w0] by (auto simp add: bounded_record_def)
  show "reached C args w0 L \<longrightarrow> (\<exists>ys. r_history (guarded C args w0) = ls_history L @ ys)"
    by (simp add: reached_history_kept)
qed

text \<open>
  A wrapped function that throws a \<open>ParseError\<close> with 2000 code units of raw output:
  the record in the history of the call carries the first 500 of them.
\<close>

theorem diagnostic_rawOutput_bounded_witness:
  "length long_raw = 2000
   \<and> failure_record long_guard1 (first_state ()) () (parse_diagnostic long_error)
       \<in> set (r_history (guarded long_guard1 ex_args ()))
   \<and> d_rawOutput (parse_diagnostic long_error) = Some (replicate 500 0x78)
   \<and> length (replicate 500 (0x78::16 word)) \<le> 500"
proof -
  let ?rec = "failure_record long_guard1 (first_state ()) () (parse_diagnostic long_error)"
  let ?data = "\<lparr>d_type = parse, d_message = pe_message long_error, d_field = None,
          d_expected = None, d_received = None,
          d_suggestion = Some (js ''Return valid JSON''),
          d_rawOutput = Some (pe_rawOutput long_error)\<rparr>"
  note inst = diagnostic_rawOutput_bounded [of ?data long_guard1 ex_args "()" "first_state ()"]
  have s: "inputSchema long_guard1 = None" "maxAttempts long_guard1 = 1"
    "fn_of long_guard1 = long_parse_fails"
    by (simp_all add: long_guard1_def guard_def throwing_options_def)
  have "guarded long_guard1 ex_args () =
     finish (Inl (ParseErrorThrown long_error)) None 1 [?rec]
       [published_state long_guard1 (first_state ())] ()"
    by (rule guarded_single_ParseError)
       (simp_all add: s passes_input_def invoke_def long_parse_fails_def long_error_def)
  then have mem: "?rec \<in> set (r_history (guarded long_guard1 ex_args ()))"
    by (simp add: finish_def)
  have d: "ar_diagnostic ?rec = Some (parse_diagnostic long_error)"
    by (simp add: failure_record_def)
  have r: "d_rawOutput (parse_diagnostic long_error) = Some (replicate 500 0x78)"
    using inst
    by (simp add: parse_diagnostic_def long_error_def new_ParseError_def long_raw_def)
  from inst mem d r have "length (replicate 500 (0x78::16 word)) \<le> 500"
    by blast
  with mem r show ?thesis by (simp add: long_raw_def)
qed

subsection \<open>Raw output of the errors of \<open>parseJson\<close>\<close>

text \<open>
  Claim C6 fails on strings.  When the input is a string that \<open>JSON.parse\<close> rejects,
  \<open>parseJson\<close> throws a \<open>ParseError\<close> that carries the whole input, whatever its
  length; only for an input that is not a string is the text cut to 500 code units
  (lemma \<open>parseJson_non_string\<close>).
\<close>

theorem parseJson_invalid_string_keeps_input:
  assumes "json_parse (strip_fences (strip_bom s)) = Inl m"
  shows "parseJson toStr json_parse (JStr s) = Inl (new_ParseError m s)
    \<and> length (pe_rawOutput (new_ParseError m s)) = length s"
  using assms by (simp add: parseJson_def new_ParseError_def)

text \<open>
  The string of 501 letters \<open>x\<close> is not a JSON text; the error thrown for it carries all
  501 code units.
\<close>

theorem parseJson_invalid_string_keeps_input_witness:
  "parseJson (\<lambda>v. []) (\<lambda>t. Inl (js ''Unexpected token'')) (JStr (replicate 501 0x78))
     = (Inl (new_ParseError (js ''Unexpected token'') (replicate 501 0x78)) :: ParseError + jsval)
   \<and> length (pe_rawOutput (new_ParseError (js ''Unexpected token'') (replicate 501 0x78))) = 501"
  using parseJson_invalid_string_keeps_input
    [of "\<lambda>t. Inl (js ''Unexpected token'')" "replicate 501 0x78" "js ''Unexpected token''"
        "\<lambda>v. []"]
  by simp

subsection \<open>Other errors\<close>

text \<open>
  Claim C7.  Let the wrapped function throw an error that is not a \<open>ParseError\<close> in an
  attempt that the call reaches.  The call throws that same error; no violation is built
  and the failure policy is not applied in this attempt; the history is what it was
  before the attempt, with records for the earlier attempts in their order and none for
  this one; and the failing invocation is the last one, whatever the number of attempts
  left.  The history has exactly one record for each earlier attempt when the policy is
  one that throws no \<open>ParseError\<close>.
\<close>

theorem unrelated_failure_escapes:
  assumes "reached C args w0 L" and "ls_attempt L \<le> maxAttempts C"
    and "invoke C args L = (Threw e, w)"
  shows "r_result (guarded C args w0) = Inl (OtherThrown e)
       \<and> r_violation (guarded C args w0) = None
       \<and> r_history (guarded C args w0) = ls_history L
       \<and> remdups_adj (map ar_attempt (r_history (guarded C args w0))) = [1..ls_attempt L - 1]
       \<and> (quiet_policy C \<longrightarrow>
            length (r_history (guarded C args w0)) = nat (ls_attempt L) - 1)
       \<and> r_calls (guarded C args w0) = nat (ls_attempt L)
       \<and> r_world (guarded C args w0) = w"
proof -
  let ?inp = "resolveInputData args (inputParam C)"
  note inv = reached_inv [OF assms(1)]
  have "guarded C args w0 = attempt_loop C args ?inp L"
    using assms(1) by (rule guarded_reached)
  also have "\<dots> = finish (Inl (OtherThrown e)) None (ls_calls L + 1) (ls_history L)
            (ls_published L @ [published_state C L]) w"
    using assms(2) attempt_body_Threw [OF assms(3)] by (rule attempt_loop_done)
  finally have r: "guarded C args w0 =
      finish (Inl (OtherThrown e)) None (ls_calls L + 1) (ls_history L)
        (ls_published L @ [published_state C L]) w" .
  have "length (ls_history L) = nat (ls_attempt L) - 1" if "quiet_policy C"
  proof -
    have "length (ls_history L) = length (map ar_attempt (ls_history L))" by simp
    also have "\<dots> = nat (ls_attempt L) - 1" using inv that by (simp add: nat_diff_distrib)
    finally show ?thesis .
  qed
  then show ?thesis
    unfolding r using inv by (simp add: finish_def nat_diff_distrib)
qed

text \<open>
  With three attempts, the default policy and a wrapped function that throws an error on
  its first invocation, the call throws that error after one invocation, with an empty
  history.  With two attempts of which the first fails validation, \<open>parse\<close> retried
  alone, and a policy that throws a \<open>ParseError\<close>, the wrapped function throws in the
  second attempt: the call throws that error after two invocations, and its history has
  the two records that the first attempt left.
\<close>

theorem unrelated_failure_escapes_witness:
  "maxAttempts error_guard = 3
   \<and> r_result (guarded error_guard ex_args ()) = Inl (OtherThrown (js ''missing''))
   \<and> r_violation (guarded error_guard ex_args ()) = None
   \<and> r_history (guarded error_guard ex_args ()) = []
   \<and> length (r_history (guarded error_guard ex_args ())) = 0
   \<and> r_calls (guarded error_guard ex_args ()) = 1
   \<and> r_result (guarded slip_continue_guard ex_args ()) = Inl (OtherThrown (js ''missing''))
   \<and> r_violation (guarded slip_continue_guard ex_args ()) = None
   \<and> map ar_attempt (r_history (guarded slip_continue_guard ex_args ())) = [1, 1]
   \<and> remdups_adj (map ar_attempt (r_history (guarded slip_continue_guard ex_args ()))) = [1..1]
   \<and> r_calls (guarded slip_continue_guard ex_args ()) = 2"
proof -
  have r: "reached error_guard ex_args () (first_state ())"
    by (rule reached.first) (simp add: passes_input_def error_guard_simps)
  have i: "invoke error_guard ex_args (first_state ()) = (Threw (js ''missing''), ())"
    by (simp add: invoke_def error_guard_simps throws_error_def)
  have q: "quiet_policy error_guard"
    by (rule quiet_policy_named) (simp add: error_guard_simps)
  have a: "maxAttempts error_guard = 3
   \<and> r_result (guarded error_guard ex_args ()) = Inl (OtherThrown (js ''missing''))
   \<and> r_violation (guarded error_guard ex_args ()) = None
   \<and> r_history (guarded error_guard ex_args ()) = []
   \<and> length (r_history (guarded error_guard ex_args ())) = 0
   \<and> r_calls (guarded error_guard ex_args ()) = 1"
    using unrelated_failure_escapes [OF r _ i] q
    by (simp add: error_guard_simps first_state_def)
  from reached_second_slip_continue obtain L where
    r2: "reached slip_continue_guard ex_args () L" and a2: "ls_attempt L = 2"
    and h2: "map ar_attempt (ls_history L) = [1, 1]"
    by (elim exE conjE)
  have i2: "invoke slip_continue_guard ex_args L = (Threw (js ''missing''), ls_world L)"
    using a2
    by (simp add: invoke_def slip_continue_guard_simps invalid_then_throws_def retry_def
          published_state_def attempt_state_def)
  have b: "r_result (guarded slip_continue_guard ex_args ()) = Inl (OtherThrown (js ''missing''))
   \<and> r_violation (guarded slip_continue_guard ex_args ()) = None
   \<and> map ar_attempt (r_history (guarded slip_continue_guard ex_args ())) = [1, 1]
   \<and> remdups_adj (map ar_attempt (r_history (guarded slip_continue_guard ex_args ()))) = [1..1]
   \<and> r_calls (guarded slip_continue_guard ex_args ()) = 2"
    using unrelated_failure_escapes [OF r2 _ i2] a2 h2
    by (simp add: slip_continue_guard_simps)
  from a b show ?thesis by blast
qed

subsection \<open>The ambient state\<close>

text \<open>
  Claim C8.  What the \<open>retry\<close> accessor shows is consistent: for every state that a
  guarded call publishes, for the state that \<open>mockRetry\<close> publishes, and for the default
  state, \<open>remaining = maxAttempts - attempt\<close>, \<open>isRetry = (attempt > 1)\<close> and
  \<open>isFinalAttempt = (attempt = maxAttempts)\<close>.  When nothing is published the accessor
  shows \<open>attempt = 1\<close>, \<open>maxAttempts = 1\<close>, \<open>isRetry = false\<close>, \<open>lastError = null\<close>, and
  \<open>feedback()\<close> returns \<open>null\<close>.
\<close>

theorem published_states_consistent:
  "(\<forall>s\<in>set (r_published (guarded C args w0)). state_consistent (retry (Some s)))
   \<and> state_consistent (mockRetry options retry)
   \<and> state_consistent (retry None)
   \<and> rs_attempt (retry None) = 1 \<and> rs_maxAttempts (retry None) = 1
   \<and> \<not> rs_isRetry (retry None) \<and> rs_lastError (retry None) = None
   \<and> rs_feedback (retry None) = None"
proof (intro conjI)
  show "\<forall>s\<in>set (r_published (guarded C args w0)). state_consistent (retry (Some s))"
    using guarded_published [of C args w0] by (simp add: retry_def)
  show "state_consistent (mockRetry options retry)"
    by (simp add: mockRetry_def runWithRetryStateAsync_def retry_def mockRetry_state_def
          state_consistent_def Let_def)
qed (simp_all add: retry_def getDefaultState_def state_consistent_def)

text \<open>
  The state of the first of three attempts is published by a call, with two attempts
  remaining; \<open>mockRetry\<close> with attempt 3 of 5 shows two remaining attempts as well.
\<close>

theorem published_states_consistent_witness:
  "attempt_state 1 3 None [] \<in> set (r_published (guarded error_guard ex_args ()))
   \<and> rs_remaining (retry (Some (attempt_state 1 3 None []))) = 2
   \<and> \<not> rs_isRetry (retry (Some (attempt_state 1 3 None [])))
   \<and> \<not> rs_isFinalAttempt (retry (Some (attempt_state 1 3 None [])))
   \<and> rs_attempt (mockRetry ex_mock_options retry) = 3
   \<and> rs_remaining (mockRetry ex_mock_options retry) = 2"
proof -
  let ?inp = "resolveInputData ex_args (inputParam error_guard)"
  have p: "passes_input error_guard ex_args"
    by (simp add: passes_input_def error_guard_simps)
  have i: "invoke error_guard ex_args (first_state ()) = (Threw (js ''missing''), ())"
    by (simp add: invoke_def error_guard_simps throws_error_def)
  have "guarded error_guard ex_args () = attempt_loop error_guard ex_args ?inp (first_state ())"
    using p by (rule guarded_passes)
  also have "\<dots> = finish (Inl (OtherThrown (js ''missing''))) None
      (ls_calls (first_state ()) + 1) (ls_history (first_state ()))
      (ls_published (first_state ()) @ [published_state error_guard (first_state ())]) ()"
    by (rule attempt_loop_done [OF _ attempt_body_Threw [OF i]])
       (simp add: first_state_def error_guard_simps)
  finally have mem: "attempt_state 1 3 None [] \<in> set (r_published (guarded error_guard ex_args ()))"
    by (simp add: finish_def first_state_def published_state_def error_guard_simps)
  from published_states_consistent [of error_guard ex_args "()" ex_mock_options] mem
  have "state_consistent (retry (Some (attempt_state 1 3 None [])))"
    and m: "state_consistent (mockRetry ex_mock_options retry)"
    by blast+
  then have "rs_remaining (retry (Some (attempt_state 1 3 None []))) = 2
   \<and> \<not> rs_isRetry (retry (Some (attempt_state 1 3 None [])))
   \<and> \<not> rs_isFinalAttempt (retry (Some (attempt_state 1 3 None [])))"
    by (simp add: state_consistent_def retry_def attempt_state_def)
  moreover have "rs_attempt (mockRetry ex_mock_options retry) = 3"
    "rs_maxAttempts (mockRetry ex_mock_options retry) = 5"
    by (simp_all add: mockRetry_def runWithRetryStateAsync_def retry_def mockRetry_state_def
          ex_mock_options_def)
  with m have "rs_attempt (mockRetry ex_mock_options retry) = 3
      \<and> rs_remaining (mockRetry ex_mock_options retry) = 2"
    by (simp add: state_consistent_def)
  ultimately show ?thesis using mem by blast
qed

subsection \<open>Normalisation in \<open>parseJson\<close>\<close>

text \<open>
  Claim C10.  Before it decodes, \<open>parseJson\<close> removes a leading byte-order mark and
  trims the text, and when the trimmed text starts with a fence, it removes the first
  line and a closing fence and trims again.  So a text whose trimmed form starts with a
  fence has one of three shapes, with white space \<open>a\<close> before the fence: the fence line
  alone, which leaves the empty text; a fence line with a tag, a body, a closing fence
  and white space \<open>b\<close>, which leaves the trimmed body; or a fence line, and a body that
  does not end in a fence, which leaves the trimmed body as well.  A text whose trimmed
  form does not start with a fence is trimmed only.  Let \<open>json_parse\<close> accept only
  texts that start, after JSON white space, like a JSON value, and accept the trimmed
  text of every text it accepts, with the same value, as \<open>JSON.parse\<close> does.  Then for
  every text \<open>j\<close> that it accepts with value \<open>v\<close>, \<open>parseJson\<close> returns \<open>v\<close> for \<open>j\<close>
  inside a \<open>json\<close> fence, for \<open>j\<close> inside any fence with white space around it, with
  or without a byte-order mark in front, for \<open>j\<close> between white space, for \<open>j\<close> itself,
  and for \<open>j\<close> after a byte-order mark.
\<close>

theorem parseJson_fenced:
  assumes "json_parse j = Inr v"
    and "\<forall>t u. json_parse t = Inr u \<longrightarrow> json_text_start t \<and> json_parse (trim t) = Inr u"
    and "blank a" and "blank b" and "0x0A \<notin> set tag"
  shows "parseJson toStr json_parse (JStr (fenced j)) = Inr v
    \<and> parseJson toStr json_parse (JStr (a @ fence @ tag @ [0x0A] @ j @ fence @ b)) = Inr v
    \<and> parseJson toStr json_parse (JStr (BOM # a @ fence @ tag @ [0x0A] @ j @ fence @ b)) = Inr v
    \<and> parseJson toStr json_parse (JStr (a @ j @ b)) = Inr v
    \<and> parseJson toStr json_parse (JStr j) = Inr v
    \<and> parseJson toStr json_parse (JStr (BOM # j)) = Inr v
    \<and> strip_bom (BOM # s) = s
    \<and> strip_fences (a @ fence @ tag @ [0x0A] @ body @ fence @ b) = trim body
    \<and> (\<not> endsWith (trimEnd body) fence \<longrightarrow>
         strip_fences (a @ fence @ tag @ [0x0A] @ body) = trim body)
    \<and> strip_fences (a @ fence @ tag) = []
    \<and> (startsWith (trim s) fence \<longrightarrow>
         (\<exists>a rest. blank a \<and> 0x0A \<notin> set rest \<and> s = a @ fence @ rest
            \<and> strip_fences s = [])
       \<or> (\<exists>a tag body b. blank a \<and> blank b \<and> 0x0A \<notin> set tag
            \<and> s = a @ fence @ tag @ [0x0A] @ body @ fence @ b
            \<and> strip_fences s = trim body)
       \<or> (\<exists>a tag body. blank a \<and> 0x0A \<notin> set tag \<and> \<not> endsWith (trimEnd body) fence
            \<and> s = a @ fence @ tag @ [0x0A] @ body
            \<and> strip_fences s = trim body))
    \<and> (\<not> startsWith (trim s) fence \<longrightarrow> strip_fences s = trim s)"
proof -
  from assms(1,2) have start: "json_text_start j" and trimmed: "json_parse (trim j) = Inr v"
    by blast+
  have bom: "strip_bom (BOM # s) = s" for s
    by (simp add: strip_bom_def slice_from_def)
  have closed: "strip_fences (a @ fence @ tag @ [0x0A] @ body @ fence @ b) = trim body" for body
    using assms(3-5) by (rule strip_fences_closed)
  have plain: "strip_fences j = trim j"
    using start by (rule strip_fences_json_text)
  have "trim (a @ j @ b) = trim j"
    using assms(3,4) by (rule trim_surrounded)
  then have around: "strip_fences (a @ j @ b) = trim j"
    using plain strip_fences_cong [of "a @ j @ b" j] by simp
  have 1: "parseJson toStr json_parse (JStr (fenced j)) = Inr v"
    using trimmed by (simp add: parseJson_def strip_fences_strip_bom strip_fences_fenced)
  have 2: "parseJson toStr json_parse (JStr (a @ fence @ tag @ [0x0A] @ j @ fence @ b)) = Inr v"
    by (simp only: parseJson_def jsval.case strip_fences_strip_bom closed trimmed sum.case)
  have 3: "parseJson toStr json_parse (JStr (BOM # a @ fence @ tag @ [0x0A] @ j @ fence @ b))
      = Inr v"
    by (simp only: parseJson_def jsval.case bom closed trimmed sum.case)
  have 4: "parseJson toStr json_parse (JStr (a @ j @ b)) = Inr v"
    by (simp only: parseJson_def jsval.case strip_fences_strip_bom around trimmed sum.case)
  have 5: "parseJson toStr json_parse (JStr j) = Inr v"
    using trimmed by (simp add: parseJson_def strip_fences_strip_bom plain)
  have 6: "parseJson toStr json_parse (JStr (BOM # j)) = Inr v"
    using trimmed by (simp add: parseJson_def bom plain)
  have 7: "\<not> endsWith (trimEnd body) fence \<longrightarrow>
         strip_fences (a @ fence @ tag @ [0x0A] @ body) = trim body"
    using strip_fences_unclosed [OF assms(3,5), of body] by blast
  have 8: "strip_fences (a @ fence @ tag) = []"
    using assms(3,5) by (rule strip_fences_one_line)
  have 9: "startsWith (trim s) fence \<longrightarrow>
         (\<exists>a rest. blank a \<and> 0x0A \<notin> set rest \<and> s = a @ fence @ rest
            \<and> strip_fences s = [])
       \<or> (\<exists>a tag body b. blank a \<and> blank b \<and> 0x0A \<notin> set tag
            \<and> s = a @ fence @ tag @ [0x0A] @ body @ fence @ b
            \<and> strip_fences s = trim body)
       \<or> (\<exists>a tag body. blank a \<and> 0x0A \<notin> set tag \<and> \<not> endsWith (trimEnd body) fence
            \<and> s = a @ fence @ tag @ [0x0A] @ body
            \<and> strip_fences s = trim body)"
    using strip_fences_cases [of s] by blast
  have 10: "\<not> startsWith (trim s) fence \<longrightarrow> strip_fences s = trim s"
    by (simp add: strip_fences_plain)
  from 1 2 3 4 5 6 bom [of s] closed [of body] 7 8 9 10 show ?thesis
    by (intro conjI)
qed

text \<open>
  A decoder that accepts the text \<open>{}\<close> only.  \<open>parseJson\<close> returns the empty object
  for the text inside a \<open>json\<close> fence with a space and a line feed before it and a line
  feed and a space after it, for the text inside a fence, after a byte-order mark, and
  between white space; the fenced text, with or without its closing fence, is reduced to
  \<open>{}\<close>, and a fence line alone to the empty text.
\<close>

theorem parseJson_fenced_witness:
  "parseJson (\<lambda>v. []) (\<lambda>t. if t = js ''{}'' then Inr (JObj []) else Inl (js ''Unexpected token''))
     (JStr ([0x20, 0x0A] @ fence @ js ''json'' @ [0x0A] @ js ''{}'' @ fence @ [0x0A, 0x20]))
     = Inr (JObj [])
   \<and> parseJson (\<lambda>v. []) (\<lambda>t. if t = js ''{}'' then Inr (JObj []) else Inl (js ''Unexpected token''))
     (JStr (BOM # [0x20, 0x0A] @ fence @ js ''json'' @ [0x0A] @ js ''{}'' @ fence @ [0x0A, 0x20]))
     = Inr (JObj [])
   \<and> parseJson (\<lambda>v. []) (\<lambda>t. if t = js ''{}'' then Inr (JObj []) else Inl (js ''Unexpected token''))
     (JStr (fenced (js ''{}''))) = Inr (JObj [])
   \<and> parseJson (\<lambda>v. []) (\<lambda>t. if t = js ''{}'' then Inr (JObj []) else Inl (js ''Unexpected token''))
     (JStr ([0x20, 0x0A] @ js ''{}'' @ [0x0A, 0x20])) = Inr (JObj [])
   \<and> parseJson (\<lambda>v. []) (\<lambda>t. if t = js ''{}'' then Inr (JObj []) else Inl (js ''Unexpected token''))
     (JStr (BOM # js ''{}'')) = Inr (JObj [])
   \<and> strip_fences ([0x20, 0x0A] @ fence @ js ''json'' @ [0x0A] @ js ''{}'' @ fence @ [0x0A, 0x20])
       = js ''{}''
   \<and> strip_fences ([0x20, 0x0A] @ fence @ js ''json'' @ [0x0A] @ js ''{}'') = js ''{}''
   \<and> strip_fences ([0x20, 0x0A] @ fence @ js ''json'') = []
   \<and> startsWith (trim ([0x20, 0x0A] @ fence @ js ''json'')) fence
   \<and> \<not> startsWith (trim (js ''{}'')) fence
   \<and> strip_fences (js ''{}'') = js ''{}''"
proof -
  let ?p = "\<lambda>t. if t = js ''{}'' then Inr (JObj []) else Inl (js ''Unexpected token'')"
  let ?a = "[0x20, 0x0A] :: jstring"
  let ?b = "[0x0A, 0x20] :: jstring"
  have a: "?p (js ''{}'') = Inr (JObj [])" by simp
  have "json_text_start (js ''{}'')"
    by (simp add: json_text_start_def js_def json_ws_def json_value_start_def)
  moreover have t: "trim (js ''{}'') = js ''{}''"
    by (simp add: trim_def trimStart_def trimEnd_def js_def js_ws_def)
  ultimately have b: "\<forall>t u. ?p t = Inr u \<longrightarrow> json_text_start t \<and> ?p (trim t) = Inr u"
    by (simp split: if_splits)
  have ws: "blank ?a" "blank ?b"
    by (simp_all add: blank_def js_ws_def)
  have c: "(0x0A :: 16 word) \<notin> set (js ''json'')"
    by (simp add: js_def)
  have e: "\<not> endsWith (trimEnd (js ''{}'')) fence"
    by (simp add: endsWith_def trimEnd_def js_def js_ws_def fence_def)
  have n: "\<not> startsWith (trim (js ''{}'')) fence"
    by (simp add: t) (simp add: startsWith_def js_def fence_def)
  have "trim (?a @ fence @ js ''json'') = fence @ js ''json''"
    by (simp add: trim_def trimStart_def trimEnd_def js_def js_ws_def fence_def)
  then have f: "startsWith (trim (?a @ fence @ js ''json'')) fence"
    by (simp add: startsWith_def)
  note inst = parseJson_fenced [where json_parse = ?p and j = "js ''{}''" and v = "JObj []"
      and a = ?a and b = ?b and tag = "js ''json''" and toStr = "\<lambda>v. []"
      and body = "js ''{}''" and s = "js ''{}''", OF a b ws c]
  from inst e n t f show ?thesis
    by (simp only: simp_thms)
qed

end
